theory Spec2Isabelle
  imports Main "HOL-Library.Sublist"
begin

section \<open>Strings and characters\<close>

text \<open>
  The extension works on JavaScript strings. They are modelled as lists of 8-bit code
  units (\<open>string\<close>), so the white space of \<open>\s\<close> and of \<open>trim()\<close> is the part of
  the ECMAScript white-space set below 256, and the line terminators are LF and CR.
\<close>

definition in_range :: "char \<Rightarrow> char \<Rightarrow> char \<Rightarrow> bool" where
  "in_range lo hi c = ((of_char lo :: nat) \<le> of_char c \<and> (of_char c :: nat) \<le> of_char hi)"

definition is_digit :: "char \<Rightarrow> bool" where
  "is_digit c = in_range (CHR ''0'') (CHR ''9'') c"

text \<open>\<open>\w\<close>, the characters that count for \<open>\b\<close>.\<close>

definition is_word :: "char \<Rightarrow> bool" where
  "is_word c = (in_range (CHR ''a'') (CHR ''z'') c \<or> in_range (CHR ''A'') (CHR ''Z'') c
                \<or> is_digit c \<or> c = CHR ''_'')"

text \<open>The class \<open>[a-zA-Z0-9_-]\<close>.\<close>

definition is_ident :: "char \<Rightarrow> bool" where
  "is_ident c = (in_range (CHR ''a'') (CHR ''z'') c \<or> in_range (CHR ''A'') (CHR ''Z'') c
                \<or> is_digit c \<or> c = CHR ''_'' \<or> c = CHR ''-'')"

text \<open>The class \<open>[a-zA-Z0-9_.-]\<close>.\<close>

definition is_ident_dot :: "char \<Rightarrow> bool" where
  "is_ident_dot c = (in_range (CHR ''a'') (CHR ''z'') c \<or> in_range (CHR ''A'') (CHR ''Z'') c
                \<or> is_digit c \<or> c = CHR ''_'' \<or> c = CHR ''.'' \<or> c = CHR ''-'')"

definition is_space :: "char \<Rightarrow> bool" where
  "is_space c = (c = CHR 0x09 \<or> c = CHR 0x0A \<or> c = CHR 0x0B \<or> c = CHR 0x0C
                 \<or> c = CHR 0x0D \<or> c = CHR 0x20 \<or> c = CHR 0xA0)"

definition is_line_term :: "char \<Rightarrow> bool" where
  "is_line_term c = (c = CHR 0x0A \<or> c = CHR 0x0D)"

definition any_char :: "char \<Rightarrow> bool" where
  "any_char c = True"

text \<open>The dot of a regular expression without the \<open>s\<close> flag.\<close>

definition dot_char :: "char \<Rightarrow> bool" where
  "dot_char c = (\<not> is_line_term c)"

definition not_paren :: "char \<Rightarrow> bool" where
  "not_paren c = (c \<noteq> CHR '')'' \<and> c \<noteq> CHR ''('')"

definition dquote :: char where
  "dquote = CHR 0x22"

definition squote :: char where
  "squote = CHR 0x27"

definition backslash :: char where
  "backslash = CHR 0x5C"

definition newline :: char where
  "newline = CHR 0x0A"

definition not_dquote :: "char \<Rightarrow> bool" where
  "not_dquote c = (c \<noteq> dquote)"

definition not_squote :: "char \<Rightarrow> bool" where
  "not_squote c = (c \<noteq> squote)"

subsection \<open>String methods\<close>

text \<open>\<open>s.trim()\<close> and \<open>s.trimEnd()\<close>.\<close>

definition trimEnd :: "string \<Rightarrow> string" where
  "trimEnd s = rev (dropWhile is_space (rev s))"

definition trim :: "string \<Rightarrow> string" where
  "trim s = trimEnd (dropWhile is_space s)"

text \<open>
  \<open>s.indexOf(sub, from)\<close>: the first index at or after \<open>from\<close> where \<open>sub\<close> starts, with
  \<open>None\<close> for JavaScript's \<open>-1\<close>.
\<close>

primrec find_sub :: "string \<Rightarrow> string \<Rightarrow> nat \<Rightarrow> nat option" where
  "find_sub sub [] i = (if sub = [] then Some i else None)"
| "find_sub sub (c # s) i = (if prefix sub (c # s) then Some i else find_sub sub s (Suc i))"

definition indexOf :: "string \<Rightarrow> string \<Rightarrow> nat \<Rightarrow> nat option" where
  "indexOf s sub from = find_sub sub (drop from s) (min from (length s))"

definition includes_str :: "string \<Rightarrow> string \<Rightarrow> bool" where
  "includes_str s sub = (indexOf s sub 0 \<noteq> None)"

text \<open>\<open>s.lastIndexOf(c)\<close> for a one-character argument.\<close>

primrec find_last :: "char \<Rightarrow> string \<Rightarrow> nat \<Rightarrow> nat option \<Rightarrow> nat option" where
  "find_last c [] i acc = acc"
| "find_last c (x # s) i acc = find_last c s (Suc i) (if x = c then Some i else acc)"

definition lastIndexOf :: "string \<Rightarrow> char \<Rightarrow> nat option" where
  "lastIndexOf s c = find_last c s 0 None"

text \<open>
  \<open>s.substring(a, b)\<close>: both arguments are clamped to the length and swapped when the
  first is the larger one.
\<close>

definition substring :: "string \<Rightarrow> nat \<Rightarrow> nat \<Rightarrow> string" where
  "substring s a b =
     (let a' = min a (length s); b' = min b (length s)
      in take (max a' b' - min a' b') (drop (min a' b') s))"

definition startsWith :: "string \<Rightarrow> string \<Rightarrow> bool" where
  "startsWith s w = prefix w s"

definition endsWith :: "string \<Rightarrow> string \<Rightarrow> bool" where
  "endsWith s w = suffix w s"

text \<open>\<open>text.split("\n")\<close>: always at least one line.\<close>

primrec split_nl :: "string \<Rightarrow> string list" where
  "split_nl [] = [[]]"
| "split_nl (c # s) =
     (if c = newline then [] # split_nl s
      else (case split_nl s of l # ls \<Rightarrow> (c # l) # ls | [] \<Rightarrow> [[c]]))"

text \<open>\<open>parts.join(sep)\<close>.\<close>

fun join :: "string \<Rightarrow> string list \<Rightarrow> string" where
  "join sep [] = []"
| "join sep [x] = x"
| "join sep (x # y # ys) = x @ sep @ join sep (y # ys)"

text \<open>A number interpolated into a template string.\<close>

definition digit_char :: "nat \<Rightarrow> char" where
  "digit_char d = char_of (of_char (CHR ''0'') + d)"

fun show_nat :: "nat \<Rightarrow> string" where
  "show_nat n = (if n < 10 then [digit_char n] else show_nat (n div 10) @ [digit_char (n mod 10)])"

subsection \<open>Numbers\<close>

text \<open>
  The numbers of the language are double-precision floating point numbers. The ones
  that \<open>parseInt\<close> and the arithmetic after it produce are integers, the two infinities
  and \<open>NaN\<close>.
\<close>

datatype number = Number int | Infinity | NegInfinity | NaN

function bit_length :: "int \<Rightarrow> nat" where
  "bit_length n = (if n \<le> 0 then 0 else Suc (bit_length (n div 2)))"
  by pat_completeness auto

termination
  by (relation "measure nat") auto

text \<open>
  The value with a significand of 53 bits that is nearest to a non-negative integer, the
  one with the even significand when two are equally near.
\<close>

definition nearest :: "int \<Rightarrow> int" where
  "nearest m =
     (let e = bit_length m - 53;
          q = m div 2 ^ e;
          r = m mod 2 ^ e;
          q' = (if 2 ^ e < 2 * r \<or> (2 * r = 2 ^ e \<and> odd q) then q + 1 else q)
      in q' * 2 ^ e)"

text \<open>The number for an integer: the greatest finite number is \<open>(2^53 - 1) * 2^971\<close>.\<close>

definition to_number :: "int \<Rightarrow> number" where
  "to_number x =
     (let m = nearest \<bar>x\<bar>
      in if 2 ^ 1024 \<le> m then (if x < 0 then NegInfinity else Infinity)
         else Number (if x < 0 then - m else m))"

text \<open>\<open>x + k\<close> and \<open>x - k\<close> for an integer \<open>k\<close>, \<open>Math.max(0, x)\<close> and \<open>Math.min(x, y)\<close>.\<close>

definition num_add :: "number \<Rightarrow> int \<Rightarrow> number" where
  "num_add x k = (case x of Number n \<Rightarrow> to_number (n + k) | _ \<Rightarrow> x)"

definition math_max0 :: "number \<Rightarrow> number" where
  "math_max0 x =
     (case x of Number n \<Rightarrow> Number (max 0 n) | Infinity \<Rightarrow> Infinity
      | NegInfinity \<Rightarrow> Number 0 | NaN \<Rightarrow> NaN)"

definition math_min :: "number \<Rightarrow> number \<Rightarrow> number" where
  "math_min x y =
     (if x = NaN \<or> y = NaN then NaN
      else if x = NegInfinity \<or> y = NegInfinity then NegInfinity
      else case (x, y) of
             (Number a, Number b) \<Rightarrow> Number (min a b)
           | (Infinity, _) \<Rightarrow> y
           | (_, _) \<Rightarrow> x)"

text \<open>
  \<open>parseInt(s, 10)\<close> for a string that a group \<open>(\d+)\<close> captured: the number for the value
  of its decimal digits. Of another string the digits at its start are read, and the
  result is \<open>NaN\<close> when there is none (white space and a sign, which \<open>parseInt\<close> also
  reads, are not in a captured group).
\<close>

definition parseInt :: "string \<Rightarrow> number" where
  "parseInt s =
     (let ds = takeWhile is_digit s
      in if ds = [] then NaN
         else to_number (foldl (\<lambda>acc d. 10 * acc + (of_char d - of_char (CHR ''0''))) 0 ds))"

section \<open>Regular expressions\<close>

text \<open>
  The regular expressions of the source are values of \<open>re\<close>; \<open>rmatch\<close> is a backtracking
  matcher that lists the ways an expression matches at the start of the input in the
  order the JavaScript engine tries them, so the head of the list is the engine's match.
  A match state is the character before the position (\<open>None\<close> at offset 0), the rest of
  the input, and the captures made so far. An iteration of \<open>*\<close> that consumes nothing is
  rejected, as in ECMAScript.
\<close>

datatype re =
    Lit string
  | Cls "char \<Rightarrow> bool"
  | Seq re re
  | Alt re re
  | Star re
  | Lazy re
  | Grp nat re
  | Bol
  | BolM
  | Eol
  | WordB

type_synonym caps = "(nat \<times> string) list"
type_synonym mstate = "char option \<times> string \<times> caps"

fun word_before :: "char option \<Rightarrow> bool" where
  "word_before None = False"
| "word_before (Some c) = is_word c"

fun word_after :: "string \<Rightarrow> bool" where
  "word_after [] = False"
| "word_after (c # s) = is_word c"

fun last_of :: "char option \<Rightarrow> string \<Rightarrow> char option" where
  "last_of p [] = p"
| "last_of p (c # w) = last_of (Some c) w"

function rmatch :: "re \<Rightarrow> mstate \<Rightarrow> mstate list" where
  "rmatch (Lit w) (p, s, c) =
     (if prefix w s then [(last_of p w, drop (length w) s, c)] else [])"
| "rmatch (Cls P) (p, s, c) =
     (case s of [] \<Rightarrow> [] | x # s' \<Rightarrow> if P x then [(Some x, s', c)] else [])"
| "rmatch (Seq r1 r2) x = concat (map (rmatch r2) (rmatch r1 x))"
| "rmatch (Alt r1 r2) x = rmatch r1 x @ rmatch r2 x"
| "rmatch (Star r) (p, s, c) =
     concat (map (\<lambda>(p', s', c'). if length s' < length s then rmatch (Star r) (p', s', c') else [])
                 (rmatch r (p, s, c))) @ [(p, s, c)]"
| "rmatch (Lazy r) (p, s, c) =
     (p, s, c) # concat (map (\<lambda>(p', s', c'). if length s' < length s then rmatch (Lazy r) (p', s', c') else [])
                 (rmatch r (p, s, c)))"
| "rmatch (Grp n r) (p, s, c) =
     map (\<lambda>(p', s', c'). (p', s', (n, take (length s - length s') s) # c')) (rmatch r (p, s, c))"
| "rmatch Bol (p, s, c) = (if p = None then [(p, s, c)] else [])"
| "rmatch BolM (p, s, c) =
     (case p of None \<Rightarrow> [(p, s, c)] | Some x \<Rightarrow> if is_line_term x then [(p, s, c)] else [])"
| "rmatch Eol (p, s, c) = (if s = [] then [(p, s, c)] else [])"
| "rmatch WordB (p, s, c) = (if word_before p \<noteq> word_after s then [(p, s, c)] else [])"
  by pat_completeness auto
termination
  by (relation "measures [\<lambda>(r, x). size r, \<lambda>(r, p, s, c). length s]") auto

declare rmatch.simps(5) [simp del]
declare rmatch.simps(6) [simp del]

text \<open>Derived forms: \<open>r+\<close>, \<open>r?\<close>, a sequence and an alternation of several parts.\<close>

definition Plus :: "re \<Rightarrow> re" where
  "Plus r = Seq r (Star r)"

definition Opt :: "re \<Rightarrow> re" where
  "Opt r = Alt r (Lit [])"

fun seqs :: "re list \<Rightarrow> re" where
  "seqs [] = Lit []"
| "seqs [r] = r"
| "seqs (r # rs) = Seq r (seqs rs)"

fun alts :: "re list \<Rightarrow> re" where
  "alts [] = Lit []"
| "alts [r] = r"
| "alts (r # rs) = Alt r (alts rs)"

text \<open>The value of capture group \<open>n\<close> of a match (\<open>None\<close> for \<open>undefined\<close>).\<close>

definition cap :: "caps \<Rightarrow> nat \<Rightarrow> string option" where
  "cap c n = map_of c n"

subsection \<open>Scanning a string for matches\<close>

text \<open>
  A scan cuts the input into the characters no match covers and the matches, from left
  to right, as \<open>replace\<close> with a global expression and a loop of \<open>exec\<close> do: at each
  position the expression is tried on the whole rest of the input, and the scan goes on
  behind a match (the counter is the number of characters of the last match still to
  skip). After an empty match the scan moves one character on, as \<open>replace\<close> does.
\<close>

datatype piece = Keep char | Hit string caps

fun re_scan :: "re \<Rightarrow> nat \<Rightarrow> char option \<Rightarrow> string \<Rightarrow> piece list" where
  "re_scan r k p [] =
     (if k = 0 then (case rmatch r (p, [], []) of [] \<Rightarrow> [] | (p', s', c) # ms \<Rightarrow> [Hit [] c])
      else [])"
| "re_scan r k p (x # s) =
     (if 0 < k then re_scan r (k - 1) (Some x) s
      else (case rmatch r (p, x # s, []) of
              [] \<Rightarrow> Keep x # re_scan r 0 (Some x) s
            | (p', s', c) # ms \<Rightarrow>
                (let m = take (length (x # s) - length s') (x # s)
                 in if m = [] then Hit [] c # Keep x # re_scan r 0 (Some x) s
                    else Hit m c # re_scan r (length m - 1) (Some x) s)))"

definition scan :: "re \<Rightarrow> string \<Rightarrow> piece list" where
  "scan r s = re_scan r 0 None s"

text \<open>The matches of a scan with their start offsets, in order.\<close>

fun hits :: "nat \<Rightarrow> piece list \<Rightarrow> (nat \<times> string \<times> caps) list" where
  "hits i [] = []"
| "hits i (Keep x # ps) = hits (Suc i) ps"
| "hits i (Hit m c # ps) = (i, m, c) # hits (i + length m) ps"

text \<open>\<open>s.match(r)\<close> and \<open>r.exec(s)\<close> without the global flag: the leftmost match.\<close>

definition re_first :: "re \<Rightarrow> string \<Rightarrow> (nat \<times> string \<times> caps) option" where
  "re_first r s = (case hits 0 (scan r s) of [] \<Rightarrow> None | h # hs \<Rightarrow> Some h)"

text \<open>\<open>r.test(s)\<close>.\<close>

definition re_test :: "re \<Rightarrow> string \<Rightarrow> bool" where
  "re_test r s = (re_first r s \<noteq> None)"

text \<open>\<open>s.replace(r, f)\<close> with the global flag, \<open>f\<close> a function of the match and its captures.\<close>

fun rebuild :: "(string \<Rightarrow> caps \<Rightarrow> string) \<Rightarrow> piece list \<Rightarrow> string" where
  "rebuild f [] = []"
| "rebuild f (Keep x # ps) = x # rebuild f ps"
| "rebuild f (Hit m c # ps) = f m c @ rebuild f ps"

definition replace_all :: "re \<Rightarrow> (string \<Rightarrow> caps \<Rightarrow> string) \<Rightarrow> string \<Rightarrow> string" where
  "replace_all r f s = rebuild f (scan r s)"

text \<open>\<open>s.replace(r, f)\<close> without the global flag: only the leftmost match is replaced.\<close>

definition replace_first :: "re \<Rightarrow> (string \<Rightarrow> caps \<Rightarrow> string) \<Rightarrow> string \<Rightarrow> string" where
  "replace_first r f s =
     (case re_first r s of
        None \<Rightarrow> s
      | Some (i, m, c) \<Rightarrow> take i s @ f m c @ drop (i + length m) s)"

section \<open>Diagnostics\<close>

text \<open>
  \<open>new vscode.Range(startLine, startCharacter, endLine, endCharacter)\<close> and
  \<open>new vscode.Diagnostic(range, message, severity)\<close> of the editor host.
\<close>

datatype range_v = RangeV nat nat nat nat | RangeN number number number number

text \<open>
  A range from four numbers: \<open>RangeV\<close> when they are naturals, and \<open>RangeN\<close> with the
  numbers as they are otherwise (the host keeps \<open>Infinity\<close> and \<open>NaN\<close> as they are, and
  throws for a negative number, which the arguments given here never are).
\<close>

definition vsRange :: "number \<Rightarrow> number \<Rightarrow> number \<Rightarrow> number \<Rightarrow> range_v" where
  "vsRange a b c d =
     (case (a, b, c, d) of
        (Number a', Number b', Number c', Number d') \<Rightarrow>
          if 0 \<le> a' \<and> 0 \<le> b' \<and> 0 \<le> c' \<and> 0 \<le> d'
          then RangeV (nat a') (nat b') (nat c') (nat d') else RangeN a b c d
      | _ \<Rightarrow> RangeN a b c d)"

datatype severity = Error | Warning | Information | Hint

datatype diagnostic = Diagnostic (d_range: range_v) (message: string) (d_severity: severity)

definition msg_unexpected :: "char \<Rightarrow> string" where
  "msg_unexpected c = ''Unexpected closing character '' @ [squote, c, squote] @ ''.''"

definition msg_unclosed :: "char \<Rightarrow> string" where
  "msg_unclosed c = ''Unclosed character '' @ [squote, c, squote] @ ''.''"

definition msg_expected_semi :: string where
  "msg_expected_semi = ''Expected '' @ [squote] @ '';'' @ [squote] @ '' after '' @ [squote] @ ''}'' @ [squote] @ ''.''"

definition msg_missing_semi_brace :: string where
  "msg_missing_semi_brace = ''Missing '' @ [squote] @ '';'' @ [squote] @ '' after '' @ [squote] @ ''}'' @ [squote] @ ''.''"

definition msg_missing_assign :: string where
  "msg_missing_assign = ''Missing '' @ [squote] @ ''='' @ [squote] @ '' assignment.''"

definition msg_missing_semi :: string where
  "msg_missing_semi = ''Missing '' @ [squote] @ '';'' @ [squote] @ '' at the end of the statement.''"

section \<open>The bracket and statement scanner: runStaticHeuristics\<close>

subsection \<open>Bracket accounting\<close>

text \<open>
  A stack entry is \<open>{char, line, col}\<close>. The stack is a list with its top at the head:
  \<open>stack.push(e)\<close> is \<open>e # stack\<close> and \<open>stack.pop()\<close> takes the head.
\<close>

type_synonym entry = "char \<times> nat \<times> nat"
type_synonym bstate = "entry list \<times> int \<times> diagnostic list"

definition is_open :: "char \<Rightarrow> bool" where
  "is_open c = (c = CHR ''('' \<or> c = CHR ''{'' \<or> c = CHR ''['')"

definition is_close :: "char \<Rightarrow> bool" where
  "is_close c = (c = CHR '')'' \<or> c = CHR ''}'' \<or> c = CHR '']'')"

text \<open>The table \<open>pairs\<close>, from a closing character to its opening one.\<close>

definition pairs :: "char \<Rightarrow> char" where
  "pairs c = (if c = CHR '')'' then CHR ''('' else if c = CHR ''}'' then CHR ''{'' else CHR ''['')"

text \<open>The body of the loop over the characters of a line, at line \<open>i\<close> and column \<open>j\<close>.\<close>

definition bracket_step :: "nat \<Rightarrow> nat \<Rightarrow> char \<Rightarrow> bstate \<Rightarrow> bstate" where
  "bracket_step i j ch b =
     (case b of (stack, arrayDepth, diags) \<Rightarrow>
        if is_open ch then
          ((ch, i, j) # stack, (if ch = CHR ''['' then arrayDepth + 1 else arrayDepth), diags)
        else if is_close ch then
          (let arrayDepth' = (if ch = CHR '']'' then max 0 (arrayDepth - 1) else arrayDepth)
           in case stack of
                [] \<Rightarrow> ([], arrayDepth',
                        diags @ [Diagnostic (RangeV i j i (j + 1)) (msg_unexpected ch) Error])
              | last_e # stack' \<Rightarrow>
                  if fst last_e \<noteq> pairs ch
                  then (stack', arrayDepth',
                        diags @ [Diagnostic (RangeV i j i (j + 1)) (msg_unexpected ch) Error])
                  else (stack', arrayDepth', diags))
        else b)"

primrec bracket_chars :: "nat \<Rightarrow> nat \<Rightarrow> string \<Rightarrow> bstate \<Rightarrow> bstate" where
  "bracket_chars i j [] b = b"
| "bracket_chars i j (ch # cs) b = bracket_chars i (Suc j) cs (bracket_step i j ch b)"

subsection \<open>The expressions of the scanner\<close>

text \<open>\<open>/''/g\<close>\<close>

definition re_raw_delim :: re where
  "re_raw_delim = Lit [squote, squote]"

text \<open>\<open>/_(?:u|s)?action\s*=/\<close>\<close>

definition re_action :: re where
  "re_action = seqs [Lit ''_'', Opt (Alt (Lit ''u'') (Lit ''s'')), Lit ''action'',
                     Star (Cls is_space), Lit ''='']"

text \<open>\<open>/^!(\s*\{|$)/\<close>\<close>

definition re_bang_line :: re where
  "re_bang_line = seqs [Bol, Lit ''!'', Grp 1 (Alt (Seq (Star (Cls is_space)) (Lit ''{'')) Eol)]"

text \<open>\<open>/\}\s+([a-zA-Z0-9_-]+)/\<close>\<close>

definition re_inline :: re where
  "re_inline = seqs [Lit ''}'', Plus (Cls is_space), Grp 1 (Plus (Cls is_ident))]"

text \<open>\<open>/^[;\])}]|^(in|then|else)\b/\<close>\<close>

definition is_closer_or_semi :: "char \<Rightarrow> bool" where
  "is_closer_or_semi c = (c = CHR '';'' \<or> c = CHR '']'' \<or> c = CHR '')'' \<or> c = CHR ''}'')"

definition re_next_ok :: re where
  "re_next_ok = Alt (Seq Bol (Cls is_closer_or_semi))
                    (seqs [Bol, Grp 1 (alts [Lit ''in'', Lit ''then'', Lit ''else'']), WordB])"

text \<open>\<open>/^(let|in|with|inherit|if|then|else|_let)\b/\<close>\<close>

definition re_keyword :: re where
  "re_keyword = seqs [Bol, Grp 1 (alts [Lit ''let'', Lit ''in'', Lit ''with'', Lit ''inherit'',
                                        Lit ''if'', Lit ''then'', Lit ''else'', Lit ''_let'']), WordB]"

text \<open>\<open>/[a-zA-Z0-9_-]/\<close>\<close>

definition re_ident_char :: re where
  "re_ident_char = Cls is_ident"

subsection \<open>The checks of one line\<close>

text \<open>\<open>cleanLine\<close>: the line up to its first \<open>#\<close>.\<close>

definition strip_comment :: "string \<Rightarrow> string" where
  "strip_comment line =
     (case indexOf line ''#'' 0 of None \<Rightarrow> line | Some commentIdx \<Rightarrow> substring line 0 commentIdx)"

text \<open>
  The diagnostic at the last \<open>}\<close> of the line. Both callers have seen a \<open>}\<close> in the
  line, so the index exists.
\<close>

definition at_last_brace :: "nat \<Rightarrow> string \<Rightarrow> string \<Rightarrow> diagnostic list" where
  "at_last_brace i cleanLine msg =
     (case lastIndexOf cleanLine (CHR ''}'') of
        None \<Rightarrow> []
      | Some idx \<Rightarrow> [Diagnostic (RangeV i idx i (idx + 1)) msg Error])"

definition inline_check :: "nat \<Rightarrow> string \<Rightarrow> diagnostic list" where
  "inline_check i cleanLine =
     (case re_first re_inline cleanLine of
        None \<Rightarrow> []
      | Some (k, m, c) \<Rightarrow>
          (case cap c 1 of
             None \<Rightarrow> []
           | Some w \<Rightarrow> if w \<notin> set [''in'', ''then'', ''else'']
                       then at_last_brace i cleanLine msg_expected_semi else []))"

text \<open>The look-ahead: the first of the following lines with content before its \<open>#\<close>.\<close>

primrec next_content :: "string list \<Rightarrow> string" where
  "next_content [] = []"
| "next_content (l # ls) =
     (let nl = trim (takeWhile (\<lambda>c. c \<noteq> CHR ''#'') l)
      in if nl \<noteq> [] then nl else next_content ls)"

definition closing_brace_check :: "string list \<Rightarrow> nat \<Rightarrow> string \<Rightarrow> string \<Rightarrow> diagnostic list" where
  "closing_brace_check lines i cleanLine trimmed =
     (if endsWith trimmed ''}'' then
        (let nextLine = next_content (drop (i + 1) lines)
         in if nextLine \<noteq> [] \<and> \<not> re_test re_next_ok nextLine
            then at_last_brace i cleanLine msg_missing_semi_brace else [])
      else [])"

definition validEndings :: "string list" where
  "validEndings = ['';'', ''{'', ''['', ''('', [squote, squote], ''='']"

definition statement_checks :: "nat \<Rightarrow> string \<Rightarrow> string \<Rightarrow> nat \<Rightarrow> nat \<Rightarrow> diagnostic list" where
  "statement_checks i cleanLine trimmed startIdx endIdx =
     (if re_test re_keyword trimmed \<or> startsWith trimmed ''}'' then []
      else if re_test re_ident_char trimmed then
        (if \<not> includes_str cleanLine ''='' \<and> \<not> endsWith trimmed ''{''
            \<and> \<not> endsWith trimmed [squote, squote]
         then [Diagnostic (RangeV i startIdx i endIdx) msg_missing_assign Error] else [])
        @ (if includes_str cleanLine ''='' then
             (if \<not> list_ex (\<lambda>e. endsWith trimmed e) validEndings
              then [Diagnostic (RangeV i startIdx i endIdx) msg_missing_semi Error] else [])
           else [])
      else [])"

subsection \<open>The scan\<close>

record scan_state =
  stack :: "entry list"
  arrayDepth :: int
  inMultiline :: bool
  insideActionBlock :: bool
  actionBlockDepth :: nat
  diagnostics :: "diagnostic list"

definition init_state :: scan_state where
  "init_state = \<lparr>stack = [], arrayDepth = 0, inMultiline = False, insideActionBlock = False,
                 actionBlockDepth = 0, diagnostics = []\<rparr>"

text \<open>
  \<open>inMultiline\<close> after the line's raw-string delimiters are counted, and \<open>skipHeuristics\<close>,
  which is read before the line can enter an action block.
\<close>

definition toggled :: "scan_state \<Rightarrow> string \<Rightarrow> bool" where
  "toggled st cleanLine =
     (let quoteCount = length (hits 0 (scan re_raw_delim cleanLine))
      in if quoteCount mod 2 \<noteq> 0 then \<not> inMultiline st else inMultiline st)"

definition skipHeuristics :: "scan_state \<Rightarrow> string \<Rightarrow> bool" where
  "skipHeuristics st cleanLine = (toggled st cleanLine \<or> insideActionBlock st)"

text \<open>The body of the loop over the lines, for line \<open>i\<close> of the document.\<close>

definition scan_line :: "string list \<Rightarrow> nat \<Rightarrow> scan_state \<Rightarrow> scan_state" where
  "scan_line lines i st =
     (let cleanLine = strip_comment (lines ! i);
          trimmed = trim cleanLine
      in if trimmed = [] then st
         else
          (let startIdx = (case indexOf cleanLine trimmed 0 of None \<Rightarrow> 0 | Some k \<Rightarrow> k);
               endIdx = startIdx + length trimmed;
               skip = skipHeuristics st cleanLine;
               b = bracket_chars i 0 cleanLine (stack st, arrayDepth st, diagnostics st);
               stack1 = fst b;
               arrayDepth1 = fst (snd b);
               enters = (re_test re_action trimmed \<or> re_test re_bang_line trimmed);
               inside1 = (enters \<or> insideActionBlock st);
               depth1 = (if enters then length stack1 else actionBlockDepth st);
               inside2 = (if inside1 \<and> length stack1 < depth1 then False else inside1);
               diags1 = snd (snd b)
                 @ (if \<not> skip
                    then inline_check i cleanLine @ closing_brace_check lines i cleanLine trimmed
                    else []);
               diags2 = diags1
                 @ (if arrayDepth1 = 0 \<and> \<not> skip
                    then statement_checks i cleanLine trimmed startIdx endIdx else [])
           in \<lparr>stack = stack1, arrayDepth = arrayDepth1, inMultiline = toggled st cleanLine,
               insideActionBlock = inside2, actionBlockDepth = depth1, diagnostics = diags2\<rparr>))"

text \<open>The state after the first \<open>n\<close> lines of the document.\<close>

primrec scan_upto :: "string list \<Rightarrow> nat \<Rightarrow> scan_state" where
  "scan_upto lines 0 = init_state"
| "scan_upto lines (Suc n) = scan_line lines n (scan_upto lines n)"

text \<open>The final loop: every entry left on the stack, from the top.\<close>

definition unclosed_diag :: "entry \<Rightarrow> diagnostic" where
  "unclosed_diag e =
     (case e of (ch, line, col) \<Rightarrow> Diagnostic (RangeV line col line (col + 1)) (msg_unclosed ch) Error)"

definition runStaticHeuristics :: "string \<Rightarrow> diagnostic list" where
  "runStaticHeuristics doc =
     (let lines = split_nl doc;
          st = scan_upto lines (length lines)
      in diagnostics st @ map unclosed_diag (stack st))"

section \<open>The typed-declaration checker: runTypeChecks\<close>

text \<open>
  \<open>/_let\s+([a-zA-Z0-9_-]+)\s*:\s*(?:\$type\.)?([a-zA-Z0-9_-]+)(?:\s*\[([\s\S]*?)\])?\s*=/g\<close>
\<close>

definition re_let_typed :: re where
  "re_let_typed =
     seqs [Lit ''_let'', Plus (Cls is_space), Grp 1 (Plus (Cls is_ident)), Star (Cls is_space),
           Lit '':'', Star (Cls is_space), Opt (Lit ''$type.''), Grp 2 (Plus (Cls is_ident)),
           Opt (seqs [Star (Cls is_space), Lit ''['', Grp 3 (Lazy (Cls any_char)), Lit '']'']),
           Star (Cls is_space), Lit ''='']"

text \<open>\<open>/^-?\d+$/\<close>\<close>

definition re_int :: re where
  "re_int = seqs [Bol, Opt (Lit ''-''), Plus (Cls is_digit), Eol]"

text \<open>\<open>/^-?\d+(\.\d+)?$/\<close>\<close>

definition re_float :: re where
  "re_float = seqs [Bol, Opt (Lit ''-''), Plus (Cls is_digit),
                    Opt (Grp 1 (Seq (Lit ''.'') (Plus (Cls is_digit)))), Eol]"

text \<open>\<open>/^"|"$/g\<close>, \<open>/"([^"]+)"/g\<close> and \<open>/"/g\<close>\<close>

definition re_outer_quote :: re where
  "re_outer_quote = Alt (Seq Bol (Lit [dquote])) (Seq (Lit [dquote]) Eol)"

definition re_quoted :: re where
  "re_quoted = seqs [Lit [dquote], Grp 1 (Plus (Cls not_dquote)), Lit [dquote]]"

definition re_dquote :: re where
  "re_dquote = Lit [dquote]"

text \<open>
  \<open>doc.positionAt(offset)\<close> of the editor host, for a document with LF line ends: the
  line is the number of line ends before the offset, the column the distance to the
  last of them. The host clamps the offset to the document.
\<close>

definition positionAt :: "string \<Rightarrow> int \<Rightarrow> nat \<times> nat" where
  "positionAt doc offset =
     (let upto = take (nat offset) doc
      in (length (filter (\<lambda>c. c = newline) upto),
          length (takeWhile (\<lambda>c. c \<noteq> newline) (rev upto))))"

definition range_between :: "string \<Rightarrow> int \<Rightarrow> int \<Rightarrow> range_v" where
  "range_between doc a b =
     (case (positionAt doc a, positionAt doc b) of ((l1, c1), (l2, c2)) \<Rightarrow> RangeV l1 c1 l2 c2)"

text \<open>\<open>s.indexOf(sub)\<close> as the number JavaScript returns.\<close>

definition indexOf_int :: "string \<Rightarrow> string \<Rightarrow> int" where
  "indexOf_int s sub = (case indexOf s sub 0 of None \<Rightarrow> - 1 | Some k \<Rightarrow> int k)"

definition capture :: "caps \<Rightarrow> nat \<Rightarrow> string" where
  "capture c n = (case cap c n of None \<Rightarrow> [] | Some v \<Rightarrow> v)"

definition type_error :: "string \<Rightarrow> string \<Rightarrow> string" where
  "type_error what varName = ''Type Error: Expected '' @ what @ '' for '' @ [squote] @ varName @ [squote] @ ''.''"

definition enum_error :: "string \<Rightarrow> string \<Rightarrow> string list \<Rightarrow> string" where
  "enum_error cleanVal varName options =
     ''Type Error: Value '' @ [dquote] @ cleanVal @ [dquote] @ '' is not a valid option for enum ''
     @ [squote] @ varName @ [squote] @ ''. Valid options: ['' @ join '', '' options @ '']''"

text \<open>The option list of an enum declaration, from the text between its brackets.\<close>

definition enum_options :: "string option \<Rightarrow> string list" where
  "enum_options enumContent =
     (case enumContent of
        None \<Rightarrow> []
      | Some ec \<Rightarrow>
          if ec = [] then []
          else map (\<lambda>h. replace_all re_dquote (\<lambda>m c. []) (fst (snd h))) (hits 0 (scan re_quoted ec)))"

text \<open>The body of the loop, for one match of the declaration expression.\<close>

definition type_check_one :: "string \<Rightarrow> nat \<times> string \<times> caps \<Rightarrow> diagnostic list" where
  "type_check_one doc h =
     (case h of (index, m, c) \<Rightarrow>
        (let varName = capture c 1;
             varType = capture c 2;
             enumContent = cap c 3;
             valueStartPos = index + length m
         in case indexOf doc '';'' valueStartPos of
              None \<Rightarrow> []
            | Some valueEndPos \<Rightarrow>
               (let valTextRaw = substring doc valueStartPos valueEndPos;
                    valText = trim valTextRaw
                in if valText = [] then []
                   else
                    (let startIdx = int valueStartPos + indexOf_int valTextRaw valText;
                         range = range_between doc startIdx (startIdx + int (length valText))
                     in if varType = ''string'' then
                          (if \<not> startsWith valText [dquote] \<and> \<not> startsWith valText [squote, squote]
                           then [Diagnostic range (type_error ''a string'' varName) Error] else [])
                        else if varType = ''int'' \<or> varType = ''integer'' then
                          (if \<not> re_test re_int valText
                           then [Diagnostic range (type_error ''an integer'' varName) Error] else [])
                        else if varType = ''float'' then
                          (if \<not> re_test re_float valText
                           then [Diagnostic range (type_error ''a float'' varName) Error] else [])
                        else if varType = ''boolean'' then
                          (if valText \<noteq> ''true'' \<and> valText \<noteq> ''false''
                           then [Diagnostic range (type_error ''boolean (true/false)'' varName) Error]
                           else [])
                        else if varType = ''enum'' then
                          (let cleanVal = replace_all re_outer_quote (\<lambda>m c. []) valText;
                               options = enum_options enumContent
                           in if cleanVal \<notin> set options
                              then [Diagnostic range (enum_error cleanVal varName options) Error]
                              else [])
                        else []))))"

text \<open>
  The loop of \<open>exec\<close> visits the matches of the scan in order (the expression cannot
  match the empty string, so every call moves on).
\<close>

definition runTypeChecks :: "string \<Rightarrow> diagnostic list" where
  "runTypeChecks doc = concat (map (type_check_one doc) (hits 0 (scan re_let_typed doc)))"

section \<open>Masking for the formatter: provideDocumentFormattingEdits\<close>

text \<open>
  \<open>maskDict\<close> is a \<open>Map\<close>, which keeps its keys in insertion order: an association list,
  where \<open>set\<close> replaces the value of a key in place and appends a new key.
\<close>

primrec map_set :: "string \<Rightarrow> string \<Rightarrow> (string \<times> string) list \<Rightarrow> (string \<times> string) list" where
  "map_set k v [] = [(k, v)]"
| "map_set k v (e # es) = (if fst e = k then (k, v) # es else e # map_set k v es)"

record mask_state =
  newPrepText :: string
  currentIndex :: nat
  maskId :: nat
  maskDict :: "(string \<times> string) list"

text \<open>
  \<open>/_let\s+[a-zA-Z0-9_-]+\s*:\s*(?:\$type\.[a-zA-Z0-9_-]+|[a-zA-Z0-9_-]+)/g\<close>
\<close>

definition re_let_head :: re where
  "re_let_head =
     seqs [Lit ''_let'', Plus (Cls is_space), Plus (Cls is_ident), Star (Cls is_space), Lit '':'',
           Star (Cls is_space),
           Alt (Seq (Lit ''$type.'') (Plus (Cls is_ident))) (Plus (Cls is_ident))]"

text \<open>\<open>/\$[a-zA-Z0-9_-]+/g\<close>\<close>

definition re_var :: re where
  "re_var = Seq (Lit ''$'') (Plus (Cls is_ident))"

text \<open>
  \<open>/\(\s*(zmdl|alias|programs|packages|freeform|group|import|needs)(?:[^)(]|\([^)(]*\))*\)/g\<close>
\<close>

definition re_node :: re where
  "re_node =
     seqs [Lit ''('', Star (Cls is_space),
           Grp 1 (alts [Lit ''zmdl'', Lit ''alias'', Lit ''programs'', Lit ''packages'',
                        Lit ''freeform'', Lit ''group'', Lit ''import'', Lit ''needs'']),
           Star (Alt (Cls not_paren) (seqs [Lit ''('', Star (Cls not_paren), Lit '')''])),
           Lit '')'']"

text \<open>\<open>/!(\s*\{)/g\<close>\<close>

definition re_bang_brace :: re where
  "re_bang_brace = Seq (Lit ''!'') (Grp 1 (Seq (Star (Cls is_space)) (Lit ''{'')))"

text \<open>
  \<open>/^\s*(\{!?|let\b|with\b|rec\b|\[|\(|"[^"]*"|'[^']*'|[a-zA-Z0-9_-]+\s*:)/\<close>
\<close>

definition re_top_form :: re where
  "re_top_form =
     seqs [Bol, Star (Cls is_space),
           Grp 1 (alts [Seq (Lit ''{'') (Opt (Lit ''!'')), Seq (Lit ''let'') WordB,
                        Seq (Lit ''with'') WordB, Seq (Lit ''rec'') WordB, Lit ''['', Lit ''('',
                        seqs [Lit [dquote], Star (Cls not_dquote), Lit [dquote]],
                        seqs [Lit [squote], Star (Cls not_squote), Lit [squote]],
                        seqs [Plus (Cls is_ident), Star (Cls is_space), Lit '':'']])]"

text \<open>
  The forward scan for the \<open>=\<close> of a declaration: the loop over \<open>i\<close> from the end of the
  type annotation, with the character before the position, the nesting depth and the
  string flag. It returns the index where the loop stops.
\<close>

definition assign_depth :: "char \<Rightarrow> int \<Rightarrow> int" where
  "assign_depth ch depth =
     (let depth1 = (if ch = CHR ''['' \<or> ch = CHR ''{'' \<or> ch = CHR ''('' then depth + 1 else depth)
      in if ch = CHR '']'' \<or> ch = CHR ''}'' \<or> ch = CHR '')'' then depth1 - 1 else depth1)"

primrec find_assign :: "string \<Rightarrow> char option \<Rightarrow> nat \<Rightarrow> int \<Rightarrow> bool \<Rightarrow> nat" where
  "find_assign [] prev i depth inString = i"
| "find_assign (ch # s) prev i depth inString =
     (let inString' = (if ch = dquote \<and> prev \<noteq> Some backslash then \<not> inString else inString)
      in if \<not> inString' then
           (if assign_depth ch depth = 0 \<and> ch = CHR ''='' then i
            else find_assign s (Some ch) (Suc i) (assign_depth ch depth) inString')
         else find_assign s (Some ch) (Suc i) depth inString')"

definition char_before :: "string \<Rightarrow> nat \<Rightarrow> char option" where
  "char_before s i = (if i = 0 \<or> length s < i then None else Some (s ! (i - 1)))"

text \<open>The body of the loop over the declarations, for one match of the expression.\<close>

definition let_step :: "string \<Rightarrow> mask_state \<Rightarrow> nat \<times> string \<times> caps \<Rightarrow> mask_state" where
  "let_step prepText st h =
     (case h of (index, m, c) \<Rightarrow>
        (let out = newPrepText st @ substring prepText (currentIndex st) index;
             from = index + length m;
             i = find_assign (drop from prepText) (char_before prepText from) from 0 False
         in if i < length prepText \<and> prepText ! i = CHR ''='' then
              (let beforeArray = m;
                   middleContent = trim (substring prepText from i)
               in if 0 < length middleContent then
                    (let startPlaceholder = ''__ZEN_LET_S_'' @ show_nat (maskId st) @ ''__'';
                         endPlaceholder = ''__ZEN_LET_E_'' @ show_nat (maskId st) @ ''__''
                     in st\<lparr>newPrepText := out @ startPlaceholder @ '' = '' @ middleContent @ '';''
                                             @ [newline] @ endPlaceholder @ '' ='',
                            currentIndex := i + 1,
                            maskId := maskId st + 1,
                            maskDict := map_set endPlaceholder ''=''
                                          (map_set startPlaceholder beforeArray (maskDict st))\<rparr>)
                  else
                    (let fullMatch = substring prepText index i;
                         placeholder = ''__ZEN_LET_'' @ show_nat (maskId st) @ ''__''
                     in st\<lparr>newPrepText := out @ placeholder @ '' ='',
                            currentIndex := i + 1,
                            maskId := maskId st + 1,
                            maskDict := map_set placeholder (trimEnd fullMatch) (maskDict st)\<rparr>))
            else st\<lparr>newPrepText := out @ m, currentIndex := index + length m\<rparr>))"

text \<open>
  \<open>replace\<close> with a callback that counts placeholders and fills the dictionary: the
  callback runs on the matches from left to right.
\<close>

fun rebuild_st :: "(string \<Rightarrow> caps \<Rightarrow> 's \<Rightarrow> string \<times> 's) \<Rightarrow> piece list \<Rightarrow> 's \<Rightarrow> string \<times> 's" where
  "rebuild_st f [] st = ([], st)"
| "rebuild_st f (Keep x # ps) st = (case rebuild_st f ps st of (out, st') \<Rightarrow> (x # out, st'))"
| "rebuild_st f (Hit m c # ps) st =
     (case f m c st of (r, st1) \<Rightarrow> (case rebuild_st f ps st1 of (out, st2) \<Rightarrow> (r @ out, st2)))"

definition maskMatch :: "string \<Rightarrow> string \<Rightarrow> caps \<Rightarrow> mask_state \<Rightarrow> string \<times> mask_state" where
  "maskMatch pfx m c st =
     (let placeholder = ''__ZEN_'' @ pfx @ ''_'' @ show_nat (maskId st) @ ''__''
      in (placeholder, st\<lparr>maskId := maskId st + 1, maskDict := map_set placeholder m (maskDict st)\<rparr>))"

definition maskBang :: "string \<Rightarrow> caps \<Rightarrow> mask_state \<Rightarrow> string \<times> mask_state" where
  "maskBang m c st =
     (let placeholder = ''__ZEN_BANG_'' @ show_nat (maskId st) @ ''__ ='' @ capture c 1
      in (placeholder, st\<lparr>maskId := maskId st + 1, maskDict := map_set placeholder m (maskDict st)\<rparr>))"

text \<open>The masked text, whether it was wrapped, and the dictionary.\<close>

definition format_mask :: "string \<Rightarrow> string \<times> bool \<times> (string \<times> string) list" where
  "format_mask doc =
     (let st0 = \<lparr>newPrepText = [], currentIndex = 0, maskId = 0, maskDict = []\<rparr>;
          st1 = foldl (let_step doc) st0 (hits 0 (scan re_let_head doc));
          prep1 = newPrepText st1 @ drop (currentIndex st1) doc
      in case rebuild_st (maskMatch ''VAR'') (scan re_var prep1) st1 of (prep2, st2) \<Rightarrow>
         case rebuild_st (maskMatch ''NODE'') (scan re_node prep2) st2 of (prep3, st3) \<Rightarrow>
         case rebuild_st maskBang (scan re_bang_brace prep3) st3 of (prep4, st4) \<Rightarrow>
           if \<not> re_test re_top_form prep4
           then (''{'' @ [newline] @ prep4 @ [newline] @ ''}'', True, maskDict st4)
           else (prep4, False, maskDict st4))"

text \<open>Undoing the wrap in the formatter's output; \<open>/^  /gm\<close> is the added indentation.\<close>

definition re_indent :: re where
  "re_indent = Seq BolM (Lit ''  '')"

definition unwrap :: "string \<Rightarrow> string" where
  "unwrap out =
     (let t1 = trim out;
          t2 = (if startsWith t1 ''{'' then substring t1 1 (length t1) else t1);
          t3 = (if endsWith t2 ''}'' then substring t2 0 (length t2 - 1) else t2);
          t4 = replace_all re_indent (\<lambda>m c. []) t3
      in trim t4 @ [newline])"

text \<open>
  Restoring one placeholder. The placeholder is the source of a \<open>RegExp\<close>; it has no
  character that is special there, so it matches as a literal.
\<close>

definition restore_one :: "string \<Rightarrow> string \<Rightarrow> string \<Rightarrow> string" where
  "restore_one placeholder originalText finalText =
     (if startsWith placeholder ''__ZEN_LET_S_'' then
        replace_first (seqs [Lit placeholder, Star (Cls is_space), Lit ''='']) (\<lambda>m c. originalText) finalText
      else if startsWith placeholder ''__ZEN_LET_E_'' then
        replace_first (seqs [Lit '';'', Star (Cls is_space), Lit placeholder, Star (Cls is_space), Lit ''=''])
                      (\<lambda>m c. '' ='') finalText
      else replace_all (Lit placeholder) (\<lambda>m c. originalText) finalText)"

text \<open>The loop over the keys of the dictionary, last inserted first.\<close>

definition restore :: "(string \<times> string) list \<Rightarrow> string \<Rightarrow> string" where
  "restore dict finalText = foldl (\<lambda>t e. restore_one (fst e) (snd e) t) finalText (rev dict)"

text \<open>
  The handler of the formatter's exit, with its exit code and output: the text of the one
  edit that replaces the document, or \<open>None\<close> for the empty list of edits.
\<close>

definition format_close :: "bool \<Rightarrow> (string \<times> string) list \<Rightarrow> int option \<Rightarrow> string \<Rightarrow> string option" where
  "format_close isWrapped dict code stdout =
     (if code = Some 0 \<and> 0 < length stdout
      then Some (restore dict (if isWrapped then unwrap stdout else stdout))
      else None)"

text \<open>
  The whole request. The external formatter is a parameter: from the text written to
  its input to its exit code and its output.
\<close>

definition provideDocumentFormattingEdits :: "(string \<Rightarrow> int option \<times> string) \<Rightarrow> string \<Rightarrow> string option" where
  "provideDocumentFormattingEdits nixfmt doc =
     (case format_mask doc of (prepText, isWrapped, dict) \<Rightarrow>
        (case nixfmt prepText of (code, stdout) \<Rightarrow> format_close isWrapped dict code stdout))"

section \<open>Masking for the parser: runNixCompilerChecks\<close>

text \<open>
  \<open>" ".repeat(n)\<close> throws a \<open>RangeError\<close> for a negative count (\<open>None\<close>), so the
  callbacks of the masking steps and the steps themselves can fail.
\<close>

definition repeat_space :: "int \<Rightarrow> string option" where
  "repeat_space n = (if n < 0 then None else Some (replicate (nat n) (CHR '' '')))"

fun rebuild_opt :: "(string \<Rightarrow> caps \<Rightarrow> string option) \<Rightarrow> piece list \<Rightarrow> string option" where
  "rebuild_opt f [] = Some []"
| "rebuild_opt f (Keep x # ps) = map_option (\<lambda>out. x # out) (rebuild_opt f ps)"
| "rebuild_opt f (Hit m c # ps) =
     (case f m c of
        None \<Rightarrow> None
      | Some r \<Rightarrow> map_option (\<lambda>out. r @ out) (rebuild_opt f ps))"

definition replace_all_opt :: "re \<Rightarrow> (string \<Rightarrow> caps \<Rightarrow> string option) \<Rightarrow> string \<Rightarrow> string option" where
  "replace_all_opt r f s = rebuild_opt f (scan r s)"

text \<open>
  \<open>/_let\s+[a-zA-Z0-9_-]+\s*:\s*(?:\$type\.[a-zA-Z0-9_-]+|[a-zA-Z0-9_-]+)(?:\s*\[[\s\S]*?\])?\s*=/g\<close>
\<close>

definition re_let_full :: re where
  "re_let_full =
     seqs [Lit ''_let'', Plus (Cls is_space), Plus (Cls is_ident), Star (Cls is_space), Lit '':'',
           Star (Cls is_space),
           Alt (Seq (Lit ''$type.'') (Plus (Cls is_ident))) (Plus (Cls is_ident)),
           Opt (seqs [Star (Cls is_space), Lit ''['', Lazy (Cls any_char), Lit '']'']),
           Star (Cls is_space), Lit ''='']"

text \<open>\<open>/\$[a-zA-Z0-9_.-]+/g\<close>\<close>

definition re_var_dot :: re where
  "re_var_dot = Seq (Lit ''$'') (Plus (Cls is_ident_dot))"

text \<open>\<open>/!(\s*)\{/g\<close>\<close>

definition re_bang :: re where
  "re_bang = seqs [Lit ''!'', Grp 1 (Star (Cls is_space)), Lit ''{'']"

text \<open>The four masking steps, each with the callback of its \<open>replace\<close>.\<close>

definition mask_let :: "string \<Rightarrow> string option" where
  "mask_let s =
     replace_all_opt re_let_full
       (\<lambda>m c. map_option (\<lambda>sp. ''_'' @ sp @ ''='') (repeat_space (int (length m) - 2))) s"

definition mask_var :: "string \<Rightarrow> string option" where
  "mask_var s =
     replace_all_opt re_var_dot
       (\<lambda>m c. map_option (\<lambda>sp. ''v'' @ sp) (repeat_space (int (length m) - 1))) s"

definition mask_node :: "string \<Rightarrow> string option" where
  "mask_node s =
     replace_all_opt re_node
       (\<lambda>m c. map_option (\<lambda>sp. ''n'' @ sp) (repeat_space (int (length m) - 1))) s"

definition mask_bang :: "string \<Rightarrow> string option" where
  "mask_bang s =
     replace_all_opt re_bang
       (\<lambda>m c. (let spaces = capture c 1
               in if 0 < length spaces
                  then map_option (\<lambda>sp. ''_='' @ sp @ ''{'') (repeat_space (int (length spaces) - 1))
                  else Some ''_={'')) s"

definition nix_mask :: "string \<Rightarrow> string option" where
  "nix_mask doc =
     (case mask_let doc of None \<Rightarrow> None | Some m1 \<Rightarrow>
      case mask_var m1 of None \<Rightarrow> None | Some m2 \<Rightarrow>
      case mask_node m2 of None \<Rightarrow> None | Some m3 \<Rightarrow> mask_bang m3)"

definition nix_wrap :: "string \<Rightarrow> string \<times> bool" where
  "nix_wrap masked =
     (if \<not> re_test re_top_form masked
      then (''{'' @ [newline] @ masked @ [newline] @ ''}'', True)
      else (masked, False))"

text \<open>\<open>/error: (.*?) at \(stdin\):(\d+):(\d+)/\<close>\<close>

definition re_nix_error :: re where
  "re_nix_error =
     seqs [Lit ''error: '', Grp 1 (Lazy (Cls dot_char)), Lit '' at (stdin):'',
           Grp 2 (Plus (Cls is_digit)), Lit '':'', Grp 3 (Plus (Cls is_digit))]"

text \<open>\<open>doc.lineCount\<close> of the editor host, for a document with LF line ends.\<close>

definition lineCount :: "string \<Rightarrow> nat" where
  "lineCount doc = length (split_nl doc)"

text \<open>
  The handler of the parser's exit, with its exit code (\<open>None\<close> for \<open>null\<close>) and its
  error stream: the diagnostics it publishes for the document.
\<close>

definition nix_close :: "string \<Rightarrow> diagnostic list \<Rightarrow> bool \<Rightarrow> int option \<Rightarrow> string \<Rightarrow> diagnostic list" where
  "nix_close doc existingDiagnostics isWrapped code stderr =
     (if code \<noteq> Some 0 \<and> stderr \<noteq> [] then
        (case re_first re_nix_error stderr of
           None \<Rightarrow> existingDiagnostics
         | Some (k, m, c) \<Rightarrow>
             if capture c 2 \<noteq> [] \<and> capture c 3 \<noteq> [] then
               (let errLineOffset = num_add (parseInt (capture c 2)) (- 1);
                    errColOffset = num_add (parseInt (capture c 3)) (- 1);
                    errLineOffset' = (if isWrapped then num_add errLineOffset (- 1) else errLineOffset);
                    targetLine = math_max0 errLineOffset';
                    safeCol = math_max0 errColOffset;
                    maxLine = num_add (Number (int (lineCount doc))) (- 1);
                    finalLine = math_min targetLine maxLine
                in existingDiagnostics
                   @ [Diagnostic (vsRange finalLine safeCol finalLine (num_add safeCol 1))
                        (''Syntax Error: '' @ capture c 1) Error])
             else existingDiagnostics)
      else existingDiagnostics)"

text \<open>
  The whole check. The external parser is a parameter: from the text written to its
  input to its exit code and its error stream. The result is the set of diagnostics
  published for the document, \<open>None\<close> when masking throws.
\<close>

definition runNixCompilerChecks ::
  "(string \<Rightarrow> int option \<times> string) \<Rightarrow> string \<Rightarrow> diagnostic list \<Rightarrow> diagnostic list option" where
  "runNixCompilerChecks parser doc existingDiagnostics =
     (case nix_mask doc of
        None \<Rightarrow> None
      | Some masked \<Rightarrow>
          (case nix_wrap masked of (input, isWrapped) \<Rightarrow>
             (case parser input of (code, stderr) \<Rightarrow>
                Some (nix_close doc existingDiagnostics isWrapped code stderr))))"

section \<open>The orchestrator: scheduleDiagnostics\<close>

text \<open>
  The state of the extension and of the event loop that runs it: the module variable
  \<open>diagnosticTimeout\<close> (a timer handle or \<open>undefined\<close>), the timers of the event loop that
  have not fired with what their callbacks captured (document and diagnostics), the next
  fresh handle, the parser processes that run, and the diagnostic collection (from the
  document's uri to its published set).
\<close>

type_synonym job = "string \<times> string \<times> diagnostic list"

record runtime =
  diagnosticTimeout :: "nat option"
  timers :: "(nat \<times> job) list"
  nextTimer :: nat
  running :: "job list"
  collection :: "string \<Rightarrow> diagnostic list option"

definition clearTimeout :: "nat \<Rightarrow> runtime \<Rightarrow> runtime" where
  "clearTimeout h rt = rt\<lparr>timers := filter (\<lambda>t. fst t \<noteq> h) (timers rt)\<rparr>"

definition setTimeout :: "job \<Rightarrow> runtime \<Rightarrow> nat \<times> runtime" where
  "setTimeout j rt = (nextTimer rt, rt\<lparr>timers := timers rt @ [(nextTimer rt, j)], nextTimer := nextTimer rt + 1\<rparr>)"

text \<open>\<open>scheduleDiagnostics(doc, collection)\<close> for a document with its uri and its text.\<close>

definition scheduleDiagnostics :: "string \<times> string \<Rightarrow> runtime \<Rightarrow> runtime" where
  "scheduleDiagnostics doc rt =
     (case doc of (uri, content) \<Rightarrow>
        (let rt1 = (case diagnosticTimeout rt of None \<Rightarrow> rt | Some h \<Rightarrow> clearTimeout h rt);
             heuristics = runStaticHeuristics content;
             typeChecks = runTypeChecks content;
             initialDiagnostics = heuristics @ typeChecks;
             rt2 = rt1\<lparr>collection := (collection rt1)(uri \<mapsto> initialDiagnostics)\<rparr>
         in case setTimeout (uri, content, initialDiagnostics) rt2 of
              (h, rt3) \<Rightarrow> rt3\<lparr>diagnosticTimeout := Some h\<rparr>))"

text \<open>A timer fires: the event loop drops it and runs its callback, which starts the parser.\<close>

definition fire_timer :: "nat \<Rightarrow> runtime \<Rightarrow> runtime" where
  "fire_timer h rt =
     (case map_of (timers rt) h of
        None \<Rightarrow> rt
      | Some j \<Rightarrow> rt\<lparr>timers := filter (\<lambda>t. fst t \<noteq> h) (timers rt), running := running rt @ [j]\<rparr>)"

text \<open>The parser process at position \<open>k\<close> exits with its code and error stream.\<close>

definition parser_exit :: "nat \<Rightarrow> bool \<Rightarrow> int option \<Rightarrow> string \<Rightarrow> runtime \<Rightarrow> runtime" where
  "parser_exit k isWrapped code stderr rt =
     (if k < length (running rt) then
        (case running rt ! k of (uri, content, existingDiagnostics) \<Rightarrow>
           rt\<lparr>running := take k (running rt) @ drop (Suc k) (running rt),
              collection := (collection rt)(uri \<mapsto> nix_close content existingDiagnostics isWrapped code stderr)\<rparr>)
      else rt)"

definition initial_runtime :: runtime where
  "initial_runtime = \<lparr>diagnosticTimeout = None, timers = [], nextTimer = 0, running = [],
                       collection = (\<lambda>u. None)\<rparr>"

text \<open>The states the extension can reach: by document changes, firing timers and exiting parsers.\<close>

inductive reachable :: "runtime \<Rightarrow> bool" where
  start: "reachable initial_runtime"
| change: "reachable rt \<Longrightarrow> reachable (scheduleDiagnostics doc rt)"
| fire: "reachable rt \<Longrightarrow> h \<in> fst ` set (timers rt) \<Longrightarrow> reachable (fire_timer h rt)"
| exit: "reachable rt \<Longrightarrow> k < length (running rt) \<Longrightarrow> reachable (parser_exit k w code err rt)"

section \<open>Notions of the specification\<close>

text \<open>
  The characters of the comment-stripped lines with their positions (line, column), for
  the first \<open>n\<close> lines of a document.
\<close>

primrec positioned :: "nat \<Rightarrow> nat \<Rightarrow> string \<Rightarrow> entry list" where
  "positioned i j [] = []"
| "positioned i j (ch # cs) = (ch, i, j) # positioned i (Suc j) cs"

primrec doc_chars :: "string list \<Rightarrow> nat \<Rightarrow> entry list" where
  "doc_chars lines 0 = []"
| "doc_chars lines (Suc n) = doc_chars lines n @ positioned n 0 (strip_comment (lines ! n))"

text \<open>
  Balanced brackets: every opening bracket is closed by its own closing bracket, well
  nested; other characters are free.
\<close>

inductive balanced :: "string \<Rightarrow> bool" where
  bal_empty: "balanced []"
| bal_other: "\<not> is_open ch \<Longrightarrow> \<not> is_close ch \<Longrightarrow> balanced [ch]"
| bal_wrap: "is_close ch \<Longrightarrow> balanced w \<Longrightarrow> balanced (pairs ch # w @ [ch])"
| bal_append: "balanced v \<Longrightarrow> balanced w \<Longrightarrow> balanced (v @ w)"

text \<open>The two structural diagnostics, by their messages.\<close>

definition is_unexpected :: "diagnostic \<Rightarrow> bool" where
  "is_unexpected d = prefix ''Unexpected closing character'' (message d)"

definition is_unclosed :: "diagnostic \<Rightarrow> bool" where
  "is_unclosed d = prefix ''Unclosed character'' (message d)"

definition is_structural :: "diagnostic \<Rightarrow> bool" where
  "is_structural d = (is_unexpected d \<or> is_unclosed d)"

text \<open>The matches of an expression in a text, as \<open>replace\<close> visits them.\<close>

definition spans :: "re \<Rightarrow> string \<Rightarrow> string list" where
  "spans r s = map (\<lambda>h. fst (snd h)) (hits 0 (scan r s))"

text \<open>The spans the parser masking replaces, step by step.\<close>

definition masked_spans :: "string \<Rightarrow> string list" where
  "masked_spans doc =
     spans re_let_full doc @
     (case mask_let doc of None \<Rightarrow> [] | Some m1 \<Rightarrow>
        spans re_var_dot m1 @
        (case mask_var m1 of None \<Rightarrow> [] | Some m2 \<Rightarrow>
           spans re_node m2 @
           (case mask_node m2 of None \<Rightarrow> [] | Some m3 \<Rightarrow> spans re_bang m3)))"

text \<open>A text without dialect constructs: none of the four masking expressions of the formatter matches.\<close>

definition no_dialect_constructs :: "string \<Rightarrow> bool" where
  "no_dialect_constructs doc =
     (spans re_let_head doc = [] \<and> spans re_var doc = [] \<and> spans re_node doc = []
      \<and> spans re_bang_brace doc = [])"

text \<open>
  A line starts with a keyword when one of the keywords that exempt a line from the
  statement checks is a prefix of it and no word character follows the keyword.
\<close>

definition exempt_keywords :: "string list" where
  "exempt_keywords = [''let'', ''in'', ''with'', ''inherit'', ''if'', ''then'', ''else'', ''_let'']"

definition starts_with_keyword :: "string \<Rightarrow> bool" where
  "starts_with_keyword t = (\<exists>k\<in>set exempt_keywords. prefix k t \<and> \<not> word_after (drop (length k) t))"

text \<open>
  The fill characters of the parser masking, and the relation between a character of the
  text and the character at the same offset of the masked text: it is kept or replaced
  by a fill character. The second relation also keeps line breaks where they are.
\<close>

definition fill5 :: "char \<Rightarrow> bool" where
  "fill5 b = (b = CHR ''_'' \<or> b = CHR '' '' \<or> b = CHR ''='' \<or> b = CHR ''v'' \<or> b = CHR ''n'')"

definition same_or_fill :: "char \<Rightarrow> char \<Rightarrow> bool" where
  "same_or_fill a b = (b = a \<or> fill5 b)"

definition same_or_fill_nl :: "char \<Rightarrow> char \<Rightarrow> bool" where
  "same_or_fill_nl a b = (b = a \<or> (fill5 b \<and> a \<noteq> newline))"

section \<open>Auxiliary notions\<close>

text \<open>
  The bracket steps over a list of positioned characters, the bracket steps of one line
  from the stack and array depth of a state (with the diagnostics they add), and the
  statement-shape checks of a line, which the scanner runs when they are not suppressed.
\<close>

definition bracket_fold :: "entry list \<Rightarrow> bstate \<Rightarrow> bstate" where
  "bracket_fold es b = fold (\<lambda>e. bracket_step (fst (snd e)) (snd (snd e)) (fst e)) es b"

definition line_brackets :: "nat \<Rightarrow> string \<Rightarrow> scan_state \<Rightarrow> bstate" where
  "line_brackets i cleanLine st = bracket_chars i 0 cleanLine (stack st, arrayDepth st, [])"

definition shape_checks :: "string list \<Rightarrow> nat \<Rightarrow> int \<Rightarrow> diagnostic list" where
  "shape_checks lines i depth =
     (let cleanLine = strip_comment (lines ! i);
          trimmed = trim cleanLine;
          startIdx = (case indexOf cleanLine trimmed 0 of None \<Rightarrow> 0 | Some k \<Rightarrow> k)
      in inline_check i cleanLine @ closing_brace_check lines i cleanLine trimmed
         @ (if depth = 0
            then statement_checks i cleanLine trimmed startIdx (startIdx + length trimmed) else []))"

text \<open>The text a list of pieces was cut from.\<close>

primrec flat :: "piece list \<Rightarrow> string" where
  "flat [] = []"
| "flat (p # ps) = (case p of Keep x \<Rightarrow> [x] | Hit m c \<Rightarrow> m) @ flat ps"

text \<open>
  The invariant of the orchestrator: no timer is pending, or one is and the module
  variable holds its handle.
\<close>

definition one_timer :: "runtime \<Rightarrow> bool" where
  "one_timer rt =
     (timers rt = [] \<or> (\<exists>h j. timers rt = [(h, j)] \<and> diagnosticTimeout rt = Some h))"

section \<open>Properties of the scanner\<close>

lemma bracket_fold_Nil [simp]: "bracket_fold [] b = b"
  by (simp add: bracket_fold_def)

lemma bracket_fold_Cons [simp]:
  "bracket_fold ((ch, i, j) # es) b = bracket_fold es (bracket_step i j ch b)"
  by (simp add: bracket_fold_def)

lemma bracket_fold_append [simp]:
  "bracket_fold (es @ fs) b = bracket_fold fs (bracket_fold es b)"
  by (simp add: bracket_fold_def)

lemma bracket_chars_fold: "bracket_chars i j cs b = bracket_fold (positioned i j cs) b"
  by (induction cs arbitrary: j b) simp_all

lemma bracket_step_diags:
  "bracket_step i j ch (s, a, d) =
     (case bracket_step i j ch (s, a, []) of (S, A, D) \<Rightarrow> (S, A, d @ D))"
  by (simp add: bracket_step_def Let_def split: list.splits)

lemma bracket_fold_diags:
  "bracket_fold es (s, a, d) =
     (case bracket_fold es (s, a, []) of (S, A, D) \<Rightarrow> (S, A, d @ D))"
proof (induction es arbitrary: s a d)
  case Nil
  show ?case by simp
next
  case (Cons e es)
  obtain ch i j where e: "e = (ch, i, j)" by (cases e) auto
  obtain S1 A1 D1 where s1: "bracket_step i j ch (s, a, []) = (S1, A1, D1)"
    by (cases "bracket_step i j ch (s, a, [])") auto
  have s2: "bracket_step i j ch (s, a, d) = (S1, A1, d @ D1)"
    using bracket_step_diags [of i j ch s a d] s1 by simp
  obtain S A D where r: "bracket_fold es (S1, A1, []) = (S, A, D)"
    by (cases "bracket_fold es (S1, A1, [])") auto
  have "bracket_fold es (S1, A1, d @ D1) = (S, A, (d @ D1) @ D)"
    using Cons.IH [of S1 A1 "d @ D1"] r by simp
  moreover have "bracket_fold es (S1, A1, D1) = (S, A, D1 @ D)"
    using Cons.IH [of S1 A1 D1] r by simp
  ultimately show ?case
    by (simp add: e s1 s2)
qed

lemma is_close_not_open: "is_close ch \<Longrightarrow> \<not> is_open ch"
  by (auto simp: is_close_def is_open_def)

lemma is_open_pairs: "is_open (pairs ch)"
  by (simp add: is_open_def pairs_def)

lemma pairs_not_close: "\<not> is_close (pairs ch)"
  by (simp add: is_close_def pairs_def)

lemma bracket_step_other:
  "\<not> is_open ch \<Longrightarrow> \<not> is_close ch \<Longrightarrow> bracket_step i j ch b = b"
  by (cases b) (simp add: bracket_step_def)

lemma bracket_step_open:
  "is_open ch \<Longrightarrow> \<exists>a'. bracket_step i j ch (s, a, d) = ((ch, i, j) # s, a', d)"
  by (simp add: bracket_step_def)

lemma bracket_step_close_match:
  "is_close ch \<Longrightarrow> \<exists>a'. bracket_step i j ch ((pairs ch, i', j') # s, a, d) = (s, a', d)"
  by (simp add: bracket_step_def is_close_not_open Let_def)

text \<open>Balanced text leaves the stack and the diagnostics as they were.\<close>

lemma balanced_fold:
  "balanced w \<Longrightarrow> map fst es = w \<Longrightarrow> \<exists>a'. bracket_fold es (s, a, d) = (s, a', d)"
proof (induction w arbitrary: es s a d rule: balanced.induct)
  case bal_empty
  then show ?case by simp
next
  case (bal_other ch)
  then obtain i j where "es = [(ch, i, j)]" by (cases es) auto
  with bal_other show ?case by (simp add: bracket_step_other)
next
  case (bal_wrap ch w)
  from bal_wrap.prems obtain e0 es' where es: "es = e0 # es'" and e0: "fst e0 = pairs ch"
    and es': "map fst es' = w @ [ch]"
    by (cases es) auto
  from es' obtain es1 es2 where sp: "es' = es1 @ es2" and m1: "map fst es1 = w"
    and m2: "map fst es2 = [ch]"
    by (auto simp: map_eq_append_conv)
  from m2 obtain i2 j2 where e2: "es2 = [(ch, i2, j2)]" by (cases es2) auto
  obtain i0 j0 where e0': "e0 = (pairs ch, i0, j0)" using e0 by (cases e0) auto
  obtain a1 where st1: "bracket_step i0 j0 (pairs ch) (s, a, d) = ((pairs ch, i0, j0) # s, a1, d)"
    using bracket_step_open [OF is_open_pairs] by blast
  obtain a2 where st2: "bracket_fold es1 ((pairs ch, i0, j0) # s, a1, d) = ((pairs ch, i0, j0) # s, a2, d)"
    using bal_wrap.IH [OF m1] by blast
  obtain a3 where st3: "bracket_step i2 j2 ch ((pairs ch, i0, j0) # s, a2, d) = (s, a3, d)"
    using bracket_step_close_match [OF bal_wrap.hyps(1)] by blast
  show ?case
    by (simp add: es sp e2 e0' st1 st2 st3)
next
  case (bal_append v w)
  from bal_append.prems obtain es1 es2 where sp: "es = es1 @ es2" and m1: "map fst es1 = v"
    and m2: "map fst es2 = w"
    by (auto simp: map_eq_append_conv)
  obtain a1 where st1: "bracket_fold es1 (s, a, d) = (s, a1, d)"
    using bal_append.IH(1) [OF m1] by blast
  obtain a2 where st2: "bracket_fold es2 (s, a1, d) = (s, a2, d)"
    using bal_append.IH(2) [OF m2] by blast
  show ?case by (simp add: sp st1 st2)
qed

lemma trim_Nil: "trim s = [] \<Longrightarrow> \<forall>c\<in>set s. is_space c"
proof -
  assume "trim s = []"
  then have "dropWhile is_space (rev (dropWhile is_space s)) = []"
    by (simp add: trim_def trimEnd_def)
  then have "\<forall>c\<in>set (dropWhile is_space s). is_space c"
    by (simp add: dropWhile_eq_Nil_conv)
  then have "dropWhile is_space s = []"
    by (metis hd_dropWhile hd_in_set)
  then show ?thesis by (simp add: dropWhile_eq_Nil_conv)
qed

lemma space_not_bracket: "is_space c \<Longrightarrow> \<not> is_open c \<and> \<not> is_close c"
  by (auto simp: is_space_def is_open_def is_close_def)

lemma bracket_chars_spaces:
  "\<forall>c\<in>set cs. is_space c \<Longrightarrow> bracket_chars i j cs b = b"
  by (induction cs arbitrary: j) (simp_all add: bracket_step_other space_not_bracket)

lemma bracket_chars_diags:
  "bracket_chars i j cs (s, a, d) =
     (case bracket_chars i j cs (s, a, []) of (S, A, D) \<Rightarrow> (S, A, d @ D))"
  by (simp add: bracket_chars_fold bracket_fold_diags [of _ s a d])

lemma scan_line_blank:
  "trim (strip_comment (lines ! i)) = [] \<Longrightarrow> scan_line lines i st = st"
  by (simp add: scan_line_def Let_def)

lemma line_brackets_blank:
  "trim cl = [] \<Longrightarrow> line_brackets i cl st = (stack st, arrayDepth st, [])"
  by (simp add: line_brackets_def bracket_chars_spaces trim_Nil)

lemma scan_line_stack:
  "stack (scan_line lines i st) = fst (line_brackets i (strip_comment (lines ! i)) st)"
proof (cases "trim (strip_comment (lines ! i)) = []")
  case True
  then show ?thesis by (simp add: scan_line_blank line_brackets_blank)
next
  case False
  then show ?thesis
    using bracket_chars_diags [of i 0 "strip_comment (lines ! i)" "stack st" "arrayDepth st" "diagnostics st"]
    by (simp add: scan_line_def Let_def line_brackets_def split: prod.splits)
qed

lemma scan_line_arrayDepth:
  "arrayDepth (scan_line lines i st) = fst (snd (line_brackets i (strip_comment (lines ! i)) st))"
proof (cases "trim (strip_comment (lines ! i)) = []")
  case True
  then show ?thesis by (simp add: scan_line_blank line_brackets_blank)
next
  case False
  then show ?thesis
    using bracket_chars_diags [of i 0 "strip_comment (lines ! i)" "stack st" "arrayDepth st" "diagnostics st"]
    by (simp add: scan_line_def Let_def line_brackets_def split: prod.splits)
qed

lemma scan_line_diagnostics:
  assumes "trim (strip_comment (lines ! i)) \<noteq> []"
  shows "diagnostics (scan_line lines i st) =
           diagnostics st @ snd (snd (line_brackets i (strip_comment (lines ! i)) st))
           @ (if skipHeuristics st (strip_comment (lines ! i)) then []
              else shape_checks lines i (arrayDepth (scan_line lines i st)))"
  using assms
    bracket_chars_diags [of i 0 "strip_comment (lines ! i)" "stack st" "arrayDepth st" "diagnostics st"]
  by (simp add: scan_line_arrayDepth)
     (simp add: scan_line_def Let_def line_brackets_def shape_checks_def split: prod.splits)

lemma scan_line_inMultiline:
  "trim (strip_comment (lines ! i)) \<noteq> [] \<Longrightarrow>
   inMultiline (scan_line lines i st) = toggled st (strip_comment (lines ! i))"
  by (simp add: scan_line_def Let_def)

lemma unexpected_is_unexpected: "is_unexpected (Diagnostic r (msg_unexpected c) s)"
  by (simp add: is_unexpected_def msg_unexpected_def)

lemma unexpected_not_unclosed: "\<not> is_unclosed (Diagnostic r (msg_unexpected c) s)"
  by (simp add: is_unclosed_def msg_unexpected_def)

lemma unclosed_is_unclosed: "is_unclosed (unclosed_diag e)"
  by (cases e) (simp add: is_unclosed_def unclosed_diag_def msg_unclosed_def)

lemma unclosed_not_unexpected: "\<not> is_unexpected (unclosed_diag e)"
  by (cases e) (simp add: is_unexpected_def unclosed_diag_def msg_unclosed_def)

lemma bracket_step_inv:
  assumes "\<forall>d\<in>set ds. Q d" and "\<And>r c. Q (Diagnostic r (msg_unexpected c) Error)"
  shows "\<forall>d\<in>set (snd (snd (bracket_step i j ch (s, a, ds)))). Q d"
  using assms by (auto simp: bracket_step_def Let_def split: list.splits)

lemma bracket_fold_inv:
  assumes "\<forall>d\<in>set (snd (snd b)). Q d" and "\<And>r c. Q (Diagnostic r (msg_unexpected c) Error)"
  shows "\<forall>d\<in>set (snd (snd (bracket_fold es b))). Q d"
  using assms(1)
proof (induction es arbitrary: b)
  case Nil
  then show ?case by simp
next
  case (Cons e es)
  obtain ch i j where e: "e = (ch, i, j)" by (cases e) auto
  obtain s a ds where b: "b = (s, a, ds)" by (cases b) auto
  have "\<forall>d\<in>set (snd (snd (bracket_step i j ch b))). Q d"
    using bracket_step_inv [of ds Q i j ch s a] Cons.prems assms(2) by (simp add: b)
  then show ?case
    using Cons.IH by (simp add: e)
qed

lemma line_brackets_unexpected:
  "\<forall>d\<in>set (snd (snd (line_brackets i cl st))). is_unexpected d \<and> \<not> is_unclosed d"
  unfolding line_brackets_def bracket_chars_fold
  by (rule bracket_fold_inv) (simp_all add: unexpected_is_unexpected unexpected_not_unclosed)

lemma at_last_brace_cases:
  "at_last_brace i cl msg = [] \<or> (\<exists>r. at_last_brace i cl msg = [Diagnostic r msg Error])"
  by (simp add: at_last_brace_def split: option.splits)

lemma shape_msgs:
  "\<not> is_unexpected (Diagnostic r msg_expected_semi s)"
  "\<not> is_unexpected (Diagnostic r msg_missing_semi_brace s)"
  "\<not> is_unexpected (Diagnostic r msg_missing_assign s)"
  "\<not> is_unexpected (Diagnostic r msg_missing_semi s)"
  "\<not> is_unclosed (Diagnostic r msg_expected_semi s)"
  "\<not> is_unclosed (Diagnostic r msg_missing_semi_brace s)"
  "\<not> is_unclosed (Diagnostic r msg_missing_assign s)"
  "\<not> is_unclosed (Diagnostic r msg_missing_semi s)"
  by (simp_all add: is_unexpected_def is_unclosed_def msg_expected_semi_def
      msg_missing_semi_brace_def msg_missing_assign_def msg_missing_semi_def)

lemma inline_check_shape:
  "\<forall>d\<in>set (inline_check i cl). \<not> is_unexpected d \<and> \<not> is_unclosed d"
  using at_last_brace_cases [of i cl msg_expected_semi]
  by (auto simp: inline_check_def shape_msgs split: option.splits)

lemma closing_brace_check_shape:
  "\<forall>d\<in>set (closing_brace_check lines i cl t). \<not> is_unexpected d \<and> \<not> is_unclosed d"
  using at_last_brace_cases [of i cl msg_missing_semi_brace]
  by (auto simp: closing_brace_check_def Let_def shape_msgs)

lemma statement_checks_shape:
  "\<forall>d\<in>set (statement_checks i cl t a b). \<not> is_unexpected d \<and> \<not> is_unclosed d"
  by (auto simp: statement_checks_def shape_msgs)

lemma shape_checks_shape:
  "\<forall>d\<in>set (shape_checks lines i depth). \<not> is_unexpected d \<and> \<not> is_unclosed d"
  using inline_check_shape closing_brace_check_shape statement_checks_shape
  by (auto simp: shape_checks_def Let_def)

lemma filter_all: "\<forall>d\<in>set ds. P d \<Longrightarrow> filter P ds = ds"
  by (induction ds) auto

lemma filter_none: "\<forall>d\<in>set ds. \<not> P d \<Longrightarrow> filter P ds = []"
  by (induction ds) auto

lemma scan_line_unexpected:
  "filter is_unexpected (diagnostics (scan_line lines i st)) =
     filter is_unexpected (diagnostics st)
     @ snd (snd (line_brackets i (strip_comment (lines ! i)) st))"
proof (cases "trim (strip_comment (lines ! i)) = []")
  case True
  then show ?thesis by (simp add: scan_line_blank line_brackets_blank)
next
  case False
  have a: "filter is_unexpected (snd (snd (line_brackets i (strip_comment (lines ! i)) st)))
             = snd (snd (line_brackets i (strip_comment (lines ! i)) st))"
    using line_brackets_unexpected by (intro filter_all) blast
  have b: "filter is_unexpected (shape_checks lines i depth) = []" for depth
    using shape_checks_shape by (intro filter_none) blast
  show ?thesis
    by (simp add: scan_line_diagnostics [OF False] a b)
qed

lemma scan_line_no_unclosed:
  assumes "\<forall>d\<in>set (diagnostics st). \<not> is_unclosed d"
  shows "\<forall>d\<in>set (diagnostics (scan_line lines i st)). \<not> is_unclosed d"
proof (cases "trim (strip_comment (lines ! i)) = []")
  case True
  then show ?thesis using assms by (simp add: scan_line_blank)
next
  case False
  show ?thesis
    using assms line_brackets_unexpected [of i "strip_comment (lines ! i)" st]
      shape_checks_shape [of lines i]
    by (auto simp: scan_line_diagnostics [OF False])
qed

lemma scan_upto_no_unclosed:
  "\<forall>d\<in>set (diagnostics (scan_upto lines n)). \<not> is_unclosed d"
  by (induction n) (simp_all add: init_state_def scan_line_no_unclosed)

text \<open>
  The stack, the array depth and the closing-character diagnostics of the scan are those
  of the bracket steps over the characters of the comment-stripped lines.
\<close>

lemma scan_upto_brackets:
  "bracket_fold (doc_chars lines n) ([], 0, []) =
     (stack (scan_upto lines n), arrayDepth (scan_upto lines n),
      filter is_unexpected (diagnostics (scan_upto lines n)))"
proof (induction n)
  case 0
  show ?case by (simp add: init_state_def)
next
  case (Suc n)
  let ?st = "scan_upto lines n"
  let ?cl = "strip_comment (lines ! n)"
  obtain S A D where lb: "line_brackets n ?cl ?st = (S, A, D)"
    by (cases "line_brackets n ?cl ?st") auto
  have "bracket_fold (positioned n 0 ?cl) (stack ?st, arrayDepth ?st, filter is_unexpected (diagnostics ?st))
          = (S, A, filter is_unexpected (diagnostics ?st) @ D)"
    using bracket_fold_diags [of "positioned n 0 ?cl" "stack ?st" "arrayDepth ?st"
        "filter is_unexpected (diagnostics ?st)"] lb
    by (simp add: line_brackets_def bracket_chars_fold)
  then show ?case
    using Suc.IH lb
    by (simp add: scan_line_stack scan_line_arrayDepth scan_line_unexpected)
qed

lemma map_fst_positioned: "map fst (positioned i j cs) = cs"
  by (induction cs arbitrary: j) simp_all

lemma map_fst_doc_chars:
  "n \<le> length lines \<Longrightarrow> map fst (doc_chars lines n) = concat (map strip_comment (take n lines))"
  by (induction n) (simp_all add: map_fst_positioned take_Suc_conv_app_nth)

lemma positioned_nth:
  "(ch, l, c) \<in> set (positioned i j cs) \<longleftrightarrow> l = i \<and> j \<le> c \<and> c - j < length cs \<and> ch = cs ! (c - j)"
proof (induction cs arbitrary: j)
  case Nil
  show ?case by simp
next
  case (Cons x xs)
  show ?case
  proof (cases "c = j")
    case True
    then show ?thesis using Cons.IH [of "Suc j"] by auto
  next
    case False
    then show ?thesis using Cons.IH [of "Suc j"] by (auto simp: Suc_diff_le nth_Cons')
  qed
qed

text \<open>An entry of \<open>doc_chars\<close> is a character of a comment-stripped line at its line and column.\<close>

lemma doc_chars_position:
  "(ch, l, c) \<in> set (doc_chars lines n) \<longleftrightarrow>
     l < n \<and> c < length (strip_comment (lines ! l)) \<and> ch = strip_comment (lines ! l) ! c"
  by (induction n) (auto simp: positioned_nth less_Suc_eq)

lemma balanced_plain: "\<forall>c\<in>set w. \<not> is_open c \<and> \<not> is_close c \<Longrightarrow> balanced w"
proof (induction w)
  case Nil
  show ?case by (rule bal_empty)
next
  case (Cons c w)
  then have "balanced [c]" and "balanced w" by (simp_all add: bal_other)
  then have "balanced ([c] @ w)" by (rule bal_append)
  then show ?case by simp
qed

lemma filter_structural:
  "filter is_structural ds = [] \<longleftrightarrow> filter is_unexpected ds = [] \<and> filter is_unclosed ds = []"
  by (auto simp: is_structural_def filter_empty_conv)

text \<open>
  C3. For every document whose comment-stripped text has balanced brackets, the stack of
  the scanner is empty at the end of the scan and the scanner emits no structural
  diagnostic: no unexpected closing character and no unclosed character.
\<close>

theorem balanced_no_structural:
  assumes "balanced (concat (map strip_comment (split_nl doc)))"
  shows "stack (scan_upto (split_nl doc) (length (split_nl doc))) = []
         \<and> filter is_structural (runStaticHeuristics doc) = []"
proof -
  let ?lines = "split_nl doc"
  let ?st = "scan_upto ?lines (length ?lines)"
  have "map fst (doc_chars ?lines (length ?lines)) = concat (map strip_comment ?lines)"
    by (simp add: map_fst_doc_chars)
  with assms obtain a' where
    "bracket_fold (doc_chars ?lines (length ?lines)) ([], 0, []) = ([], a', [])"
    using balanced_fold by metis
  then have st: "stack ?st = []" and un: "filter is_unexpected (diagnostics ?st) = []"
    by (simp_all add: scan_upto_brackets)
  have "filter is_unclosed (diagnostics ?st) = []"
    using scan_upto_no_unclosed by (intro filter_none) blast
  with st un show ?thesis
    by (simp add: runStaticHeuristics_def Let_def filter_structural)
qed

theorem balanced_no_structural_witness:
  "balanced (concat (map strip_comment (split_nl ''a = {\<newline>  b = [ (1) ]; # }\<newline>};'')))
   \<and> stack (scan_upto (split_nl ''a = {\<newline>  b = [ (1) ]; # }\<newline>};'')
                     (length (split_nl ''a = {\<newline>  b = [ (1) ]; # }\<newline>};''))) = []
   \<and> filter is_structural (runStaticHeuristics ''a = {\<newline>  b = [ (1) ]; # }\<newline>};'') = []"
proof -
  have shape: "concat (map strip_comment (split_nl ''a = {\<newline>  b = [ (1) ]; # }\<newline>};''))
         = ''a = '' @ (pairs (CHR ''}'') # (''  b = '' @ (pairs (CHR '']'') # ('' '' @ (pairs (CHR '')'') # ''1'' @ '')'') @ '' '') @ '']'') @ ''; '') @ ''}'') @ '';''"
    by code_simp
  have plain: "balanced ''a = ''" "balanced ''  b = ''" "balanced '' ''" "balanced ''1''"
    "balanced ''; ''" "balanced '';''"
    by (rule balanced_plain, simp add: is_close_def is_open_def)+
  have cl: "is_close (CHR '')'')" "is_close (CHR '']'')" "is_close (CHR ''}'')"
    by (simp_all add: is_close_def)
  have p: "balanced (pairs (CHR '')'') # ''1'' @ '')'')"
    by (rule bal_wrap [OF cl(1) plain(4)])
  have q: "balanced (pairs (CHR '']'') # ('' '' @ (pairs (CHR '')'') # ''1'' @ '')'') @ '' '') @ '']'')"
    by (rule bal_wrap [OF cl(2) bal_append [OF plain(3) bal_append [OF p plain(3)]]])
  have r: "balanced (pairs (CHR ''}'') # (''  b = '' @ (pairs (CHR '']'') # ('' '' @ (pairs (CHR '')'') # ''1'' @ '')'') @ '' '') @ '']'') @ ''; '') @ ''}'')"
    by (rule bal_wrap [OF cl(3) bal_append [OF plain(2) bal_append [OF q plain(5)]]])
  have bal: "balanced (concat (map strip_comment (split_nl ''a = {\<newline>  b = [ (1) ]; # }\<newline>};'')))"
    unfolding shape by (rule bal_append [OF plain(1) bal_append [OF r plain(6)]])
  show ?thesis by (rule conjI [OF bal balanced_no_structural [OF bal]])
qed

text \<open>
  C7 (as amended). For a document with one unmatched opening \<open>{\<close> at line \<open>L\<close>, column
  \<open>C\<close>, where the comment-stripped text before it is balanced and the text after it is
  balanced (so no bracket pair encloses it), the scanner yields exactly one
  unclosed-character diagnostic, anchored at \<open>(L, C)\<close>, and no unexpected closing
  character. When a pair encloses the \<open>{\<close>, as in \<open>({)\<close>, the closing character pops
  it and the enclosing opener is the one reported.
\<close>

theorem one_unclosed_brace:
  assumes "doc_chars (split_nl doc) (length (split_nl doc)) = w1 @ [(CHR ''{'', L, C)] @ w2"
    and "balanced (map fst w1)" and "balanced (map fst w2)"
  shows "filter is_unclosed (runStaticHeuristics doc)
           = [Diagnostic (RangeV L C L (C + 1)) (msg_unclosed (CHR ''{'')) Error]
         \<and> filter is_unexpected (runStaticHeuristics doc) = []"
proof -
  let ?lines = "split_nl doc"
  let ?st = "scan_upto ?lines (length ?lines)"
  obtain a1 where f1: "bracket_fold w1 ([], 0, []) = ([], a1, [])"
    using balanced_fold [OF assms(2) refl] by blast
  obtain a2 where f2: "bracket_step L C (CHR ''{'') ([], a1, []) = ([(CHR ''{'', L, C)], a2, [])"
  proof -
    have "is_open (CHR ''{'')" by (simp add: is_open_def)
    from bracket_step_open [OF this, of L C "[]" a1 "[]"] that show ?thesis by blast
  qed
  obtain a3 where f3: "bracket_fold w2 ([(CHR ''{'', L, C)], a2, []) = ([(CHR ''{'', L, C)], a3, [])"
    using balanced_fold [OF assms(3) refl] by blast
  have "bracket_fold (doc_chars ?lines (length ?lines)) ([], 0, []) = ([(CHR ''{'', L, C)], a3, [])"
    by (simp add: assms(1) f1 f2 f3)
  then have st: "stack ?st = [(CHR ''{'', L, C)]"
    and un: "filter is_unexpected (diagnostics ?st) = []"
    by (simp_all add: scan_upto_brackets)
  have nc: "filter is_unclosed (diagnostics ?st) = []"
    using scan_upto_no_unclosed by (intro filter_none) blast
  have "is_unclosed (unclosed_diag (CHR ''{'', L, C))" "\<not> is_unexpected (unclosed_diag (CHR ''{'', L, C))"
    by (rule unclosed_is_unclosed, rule unclosed_not_unexpected)
  moreover have "unclosed_diag (CHR ''{'', L, C)
                  = Diagnostic (RangeV L C L (C + 1)) (msg_unclosed (CHR ''{'')) Error"
    by (simp add: unclosed_diag_def)
  ultimately show ?thesis
    using st un nc by (simp add: runStaticHeuristics_def Let_def)
qed

theorem one_unclosed_brace_witness:
  "doc_chars (split_nl ''a = {\<newline>  b = (1);'') (length (split_nl ''a = {\<newline>  b = (1);''))
     = positioned 0 0 ''a = '' @ [(CHR ''{'', 0, 4)] @ positioned 1 0 ''  b = (1);''
   \<and> balanced (map fst (positioned 0 0 ''a = ''))
   \<and> balanced (map fst (positioned 1 0 ''  b = (1);''))
   \<and> filter is_unclosed (runStaticHeuristics ''a = {\<newline>  b = (1);'')
        = [Diagnostic (RangeV 0 4 0 (4 + 1)) (msg_unclosed (CHR ''{'')) Error]
   \<and> filter is_unexpected (runStaticHeuristics ''a = {\<newline>  b = (1);'') = []"
proof -
  have h1: "doc_chars (split_nl ''a = {\<newline>  b = (1);'') (length (split_nl ''a = {\<newline>  b = (1);''))
     = positioned 0 0 ''a = '' @ [(CHR ''{'', 0, 4)] @ positioned 1 0 ''  b = (1);''"
    by code_simp
  have h2: "balanced (map fst (positioned 0 0 ''a = ''))"
    unfolding map_fst_positioned by (rule balanced_plain) (simp add: is_open_def is_close_def)
  have plain: "balanced ''  b = ''" "balanced ''1''" "balanced '';''"
    by (rule balanced_plain, simp add: is_close_def is_open_def)+
  have cl: "is_close (CHR '')'')"
    by (simp add: is_close_def)
  have "balanced (''  b = '' @ (pairs (CHR '')'') # ''1'' @ '')'') @ '';'')"
    by (rule bal_append [OF plain(1) bal_append [OF bal_wrap [OF cl plain(2)] plain(3)]])
  moreover have "''  b = '' @ (pairs (CHR '')'') # ''1'' @ '')'') @ '';'' = ''  b = (1);''"
    by (simp add: pairs_def)
  ultimately have h3: "balanced (map fst (positioned 1 0 ''  b = (1);''))"
    unfolding map_fst_positioned by simp
  show ?thesis
    by (rule conjI [OF h1 conjI [OF h2 conjI [OF h3 one_unclosed_brace [OF h1 h2 h3]]]])
qed

theorem one_unclosed_brace_counterexample:
  "balanced ''()''
   \<and> runStaticHeuristics ''({)''
       = [Diagnostic (RangeV 0 2 0 3) (msg_unexpected (CHR '')'')) Error,
          Diagnostic (RangeV 0 0 0 1) (msg_unclosed (CHR ''('')) Error]"
proof -
  have "is_close (CHR '')'')" by (simp add: is_close_def)
  from bal_wrap [OF this bal_empty] have "balanced ''()''" by (simp add: pairs_def)
  moreover have "runStaticHeuristics ''({)''
       = [Diagnostic (RangeV 0 2 0 3) (msg_unexpected (CHR '')'')) Error,
          Diagnostic (RangeV 0 0 0 1) (msg_unclosed (CHR ''('')) Error]"
    by code_simp
  ultimately show ?thesis by (rule conjI)
qed

lemma positioned_append:
  "positioned i j (xs @ ys) = positioned i j xs @ positioned i (j + length xs) ys"
  by (induction xs arbitrary: j) simp_all

lemma close_bracket_pairs: "is_close ch \<Longrightarrow> (pairs ch = CHR ''['') = (ch = CHR '']'')"
  by (auto simp: is_close_def pairs_def)

text \<open>Balanced text also leaves the array depth as it was, when it was not negative.\<close>

lemma balanced_fold_depth:
  "balanced w \<Longrightarrow> map fst es = w \<Longrightarrow> 0 \<le> a \<Longrightarrow> bracket_fold es (s, a, d) = (s, a, d)"
proof (induction w arbitrary: es s a d rule: balanced.induct)
  case bal_empty
  then show ?case by simp
next
  case (bal_other ch)
  then obtain i j where "es = [(ch, i, j)]" by (cases es) auto
  with bal_other show ?case by (simp add: bracket_step_other)
next
  case (bal_wrap ch w)
  from bal_wrap.prems obtain e0 es' where es: "es = e0 # es'" and e0: "fst e0 = pairs ch"
    and es': "map fst es' = w @ [ch]"
    by (cases es) auto
  from es' obtain es1 es2 where sp: "es' = es1 @ es2" and m1: "map fst es1 = w"
    and m2: "map fst es2 = [ch]"
    by (auto simp: map_eq_append_conv)
  from m2 obtain i2 j2 where e2: "es2 = [(ch, i2, j2)]" by (cases es2) auto
  obtain i0 j0 where e0': "e0 = (pairs ch, i0, j0)" using e0 by (cases e0) auto
  define a1 where "a1 = (if ch = CHR '']'' then a + 1 else a)"
  have a1: "0 \<le> a1" using bal_wrap.prems(2) by (simp add: a1_def)
  have st1: "bracket_step i0 j0 (pairs ch) (s, a, d) = ((pairs ch, i0, j0) # s, a1, d)"
    by (simp add: bracket_step_def is_open_pairs close_bracket_pairs [OF bal_wrap.hyps(1)] a1_def)
  have st2: "bracket_fold es1 ((pairs ch, i0, j0) # s, a1, d) = ((pairs ch, i0, j0) # s, a1, d)"
    using bal_wrap.IH [OF m1 a1] .
  have st3: "bracket_step i2 j2 ch ((pairs ch, i0, j0) # s, a1, d) = (s, a, d)"
    using bal_wrap.prems(2)
    by (simp add: bracket_step_def is_close_not_open [OF bal_wrap.hyps(1)] bal_wrap.hyps(1) a1_def)
  show ?case
    by (simp add: es sp e2 e0' st1 st2 st3)
next
  case (bal_append v w)
  from bal_append.prems obtain es1 es2 where sp: "es = es1 @ es2" and m1: "map fst es1 = v"
    and m2: "map fst es2 = w"
    by (auto simp: map_eq_append_conv)
  have st1: "bracket_fold es1 (s, a, d) = (s, a, d)"
    using bal_append.IH(1) [OF m1 bal_append.prems(2)] .
  have st2: "bracket_fold es2 (s, a, d) = (s, a, d)"
    using bal_append.IH(2) [OF m2 bal_append.prems(2)] .
  show ?case by (simp add: sp st1 st2)
qed

lemma bracket_step_nonneg:
  "0 \<le> fst (snd b) \<Longrightarrow> 0 \<le> fst (snd (bracket_step i j ch b))"
proof -
  assume a: "0 \<le> fst (snd b)"
  obtain s k d where b: "b = (s, k, d)" by (cases b) auto
  show ?thesis
  proof (cases "is_open ch")
    case True
    with a show ?thesis by (simp add: b bracket_step_def)
  next
    case False
    note no = this
    show ?thesis
    proof (cases "is_close ch")
      case True
      with no a show ?thesis
        by (cases s) (simp_all add: b bracket_step_def Let_def)
    next
      case False
      with no a show ?thesis by (simp add: b bracket_step_def)
    qed
  qed
qed

lemma bracket_fold_nonneg:
  "0 \<le> fst (snd b) \<Longrightarrow> 0 \<le> fst (snd (bracket_fold es b))"
proof (induction es arbitrary: b)
  case Nil
  then show ?case by simp
next
  case (Cons e es)
  obtain ch i j where e: "e = (ch, i, j)" by (cases e) auto
  show ?case using Cons.IH [OF bracket_step_nonneg [OF Cons.prems]] by (simp add: e)
qed

lemma scan_upto_depth_nonneg: "0 \<le> arrayDepth (scan_upto lines n)"
  using bracket_fold_nonneg [of "([], 0, [])" "doc_chars lines n"]
  by (simp add: scan_upto_brackets)

text \<open>One bracket in a line whose text before it and after it is balanced.\<close>

lemma line_one_bracket:
  assumes "cl = pre @ [c] @ post" and "balanced pre" and "balanced post" and "0 \<le> arrayDepth st"
  shows "line_brackets i cl st = bracket_step i (length pre) c (stack st, arrayDepth st, [])"
proof -
  have p: "positioned i 0 cl
        = positioned i 0 pre @ [(c, i, length pre)] @ positioned i (Suc (length pre)) post"
    by (simp add: assms(1) positioned_append)
  have f1: "bracket_fold (positioned i 0 pre) (stack st, arrayDepth st, []) = (stack st, arrayDepth st, [])"
    by (rule balanced_fold_depth [OF assms(2) map_fst_positioned assms(4)])
  obtain S A D where b: "bracket_step i (length pre) c (stack st, arrayDepth st, []) = (S, A, D)"
    by (cases "bracket_step i (length pre) c (stack st, arrayDepth st, [])") auto
  have "0 \<le> fst (snd (bracket_step i (length pre) c (stack st, arrayDepth st, [])))"
    by (rule bracket_step_nonneg) (simp add: assms(4))
  then have A: "0 \<le> A" by (simp add: b)
  have f3: "bracket_fold (positioned i (Suc (length pre)) post) (S, A, D) = (S, A, D)"
    by (rule balanced_fold_depth [OF assms(3) map_fst_positioned A])
  show ?thesis
    by (simp add: line_brackets_def bracket_chars_fold p f1 b f3)
qed

lemma bracket_not_blank:
  assumes "c \<in> set cl" and "is_open c \<or> is_close c"
  shows "trim cl \<noteq> []"
proof
  assume "trim cl = []"
  then have "is_space c" using trim_Nil assms(1) by blast
  with assms(2) show False using space_not_bracket by blast
qed

lemma scan_line_suppressed:
  assumes "skipHeuristics st (strip_comment (lines ! i))"
  shows "diagnostics (scan_line lines i st)
          = diagnostics st @ snd (snd (line_brackets i (strip_comment (lines ! i)) st))"
proof (cases "trim (strip_comment (lines ! i)) = []")
  case True
  then show ?thesis by (simp add: scan_line_blank line_brackets_blank)
next
  case False
  from assms show ?thesis by (simp add: scan_line_diagnostics [OF False])
qed

lemma open_in_line:
  assumes "strip_comment (lines ! i) = pre @ [c] @ post" and "balanced pre" and "balanced post"
    and "0 \<le> arrayDepth st" and "is_open c"
  shows "stack (scan_line lines i st) = (c, i, length pre) # stack st"
    and "arrayDepth (scan_line lines i st) = (if c = CHR ''['' then arrayDepth st + 1 else arrayDepth st)"
    and "filter is_unexpected (diagnostics (scan_line lines i st)) = filter is_unexpected (diagnostics st)"
    and "skipHeuristics st (strip_comment (lines ! i)) \<longrightarrow>
           diagnostics (scan_line lines i st) = diagnostics st"
proof -
  have lb: "line_brackets i (strip_comment (lines ! i)) st
        = ((c, i, length pre) # stack st, (if c = CHR ''['' then arrayDepth st + 1 else arrayDepth st), [])"
    using assms(5) by (simp add: line_one_bracket [OF assms(1-4)] bracket_step_def)
  show "stack (scan_line lines i st) = (c, i, length pre) # stack st"
    by (simp add: scan_line_stack lb)
  show "arrayDepth (scan_line lines i st) = (if c = CHR ''['' then arrayDepth st + 1 else arrayDepth st)"
    by (simp add: scan_line_arrayDepth lb)
  show "filter is_unexpected (diagnostics (scan_line lines i st)) = filter is_unexpected (diagnostics st)"
    by (simp add: scan_line_unexpected lb)
  show "skipHeuristics st (strip_comment (lines ! i)) \<longrightarrow>
           diagnostics (scan_line lines i st) = diagnostics st"
    by (simp add: scan_line_suppressed lb)
qed

lemma close_in_line:
  assumes "strip_comment (lines ! i) = pre @ [c] @ post" and "balanced pre" and "balanced post"
    and "0 \<le> arrayDepth st" and "is_close c"
  shows "stack (scan_line lines i st) = tl (stack st)"
    and "arrayDepth (scan_line lines i st)
           = (if c = CHR '']'' then max 0 (arrayDepth st - 1) else arrayDepth st)"
    and "filter is_unexpected (diagnostics (scan_line lines i st))
           = filter is_unexpected (diagnostics st)
             @ (if stack st = [] \<or> fst (hd (stack st)) \<noteq> pairs c
                then [Diagnostic (RangeV i (length pre) i (length pre + 1)) (msg_unexpected c) Error]
                else [])"
    and "skipHeuristics st (strip_comment (lines ! i)) \<longrightarrow>
           diagnostics (scan_line lines i st)
             = diagnostics st
               @ (if stack st = [] \<or> fst (hd (stack st)) \<noteq> pairs c
                  then [Diagnostic (RangeV i (length pre) i (length pre + 1)) (msg_unexpected c) Error]
                  else [])"
proof -
  have lb: "line_brackets i (strip_comment (lines ! i)) st
        = (tl (stack st), (if c = CHR '']'' then max 0 (arrayDepth st - 1) else arrayDepth st),
           (if stack st = [] \<or> fst (hd (stack st)) \<noteq> pairs c
            then [Diagnostic (RangeV i (length pre) i (length pre + 1)) (msg_unexpected c) Error]
            else []))"
    using assms(5) is_close_not_open [OF assms(5)]
    by (cases "stack st") (simp_all add: line_one_bracket [OF assms(1-4)] bracket_step_def Let_def)
  show "stack (scan_line lines i st) = tl (stack st)"
    by (simp add: scan_line_stack lb)
  show "arrayDepth (scan_line lines i st)
           = (if c = CHR '']'' then max 0 (arrayDepth st - 1) else arrayDepth st)"
    by (simp add: scan_line_arrayDepth lb)
  show "filter is_unexpected (diagnostics (scan_line lines i st))
           = filter is_unexpected (diagnostics st)
             @ (if stack st = [] \<or> fst (hd (stack st)) \<noteq> pairs c
                then [Diagnostic (RangeV i (length pre) i (length pre + 1)) (msg_unexpected c) Error]
                else [])"
    by (simp only: scan_line_unexpected lb snd_conv)
  show "skipHeuristics st (strip_comment (lines ! i)) \<longrightarrow>
           diagnostics (scan_line lines i st)
             = diagnostics st
               @ (if stack st = [] \<or> fst (hd (stack st)) \<noteq> pairs c
                  then [Diagnostic (RangeV i (length pre) i (length pre + 1)) (msg_unexpected c) Error]
                  else [])"
  proof
    assume "skipHeuristics st (strip_comment (lines ! i))"
    from scan_line_suppressed [OF this] show "diagnostics (scan_line lines i st)
             = diagnostics st
               @ (if stack st = [] \<or> fst (hd (stack st)) \<noteq> pairs c
                  then [Diagnostic (RangeV i (length pre) i (length pre + 1)) (msg_unexpected c) Error]
                  else [])"
      by (simp only: lb snd_conv)
  qed
qed

text \<open>
  An opening bracket after which the text is balanced stays on the stack to the end of
  the scan; a closing bracket before which the text is balanced finds the stack empty.
\<close>

lemma open_reported:
  assumes "doc_chars (split_nl doc) (length (split_nl doc)) = w1 @ [(c, L, C)] @ w2"
    and "is_open c" and "balanced (map fst w2)"
  shows "Diagnostic (RangeV L C L (C + 1)) (msg_unclosed c) Error \<in> set (runStaticHeuristics doc)"
proof -
  let ?lines = "split_nl doc"
  let ?st = "scan_upto ?lines (length ?lines)"
  obtain s1 a1 d1 where f1: "bracket_fold w1 ([], 0, []) = (s1, a1, d1)"
    by (cases "bracket_fold w1 ([], 0, [])") auto
  obtain a2 where f2: "bracket_step L C c (s1, a1, d1) = ((c, L, C) # s1, a2, d1)"
    using bracket_step_open [OF assms(2)] by blast
  obtain a3 where f3: "bracket_fold w2 ((c, L, C) # s1, a2, d1) = ((c, L, C) # s1, a3, d1)"
    using balanced_fold [OF assms(3) refl] by blast
  have "bracket_fold (doc_chars ?lines (length ?lines)) ([], 0, []) = ((c, L, C) # s1, a3, d1)"
    by (simp add: assms(1) f1 f2 f3)
  then have "stack ?st = (c, L, C) # s1"
    by (simp add: scan_upto_brackets)
  then have "unclosed_diag (c, L, C) \<in> set (runStaticHeuristics doc)"
    by (simp add: runStaticHeuristics_def Let_def)
  then show ?thesis by (simp add: unclosed_diag_def)
qed

lemma close_reported:
  assumes "doc_chars (split_nl doc) (length (split_nl doc)) = w1 @ [(c, L, C)] @ w2"
    and "is_close c" and "balanced (map fst w1)"
  shows "Diagnostic (RangeV L C L (C + 1)) (msg_unexpected c) Error \<in> set (runStaticHeuristics doc)"
proof -
  let ?lines = "split_nl doc"
  let ?st = "scan_upto ?lines (length ?lines)"
  define d where "d = Diagnostic (RangeV L C L (C + 1)) (msg_unexpected c) Error"
  obtain a1 where f1: "bracket_fold w1 ([], 0, []) = ([], a1, [])"
    using balanced_fold [OF assms(3) refl] by blast
  obtain a2 where f2: "bracket_step L C c ([], a1, []) = ([], a2, [d])"
    using assms(2) is_close_not_open [OF assms(2)] by (simp add: bracket_step_def Let_def d_def)
  obtain S A D where f3: "bracket_fold w2 ([], a2, []) = (S, A, D)"
    by (cases "bracket_fold w2 ([], a2, [])") auto
  have f3': "bracket_fold w2 ([], a2, [d]) = (S, A, d # D)"
    using bracket_fold_diags [of w2 "[]" a2 "[d]"] f3 by simp
  have "bracket_fold (doc_chars ?lines (length ?lines)) ([], 0, []) = (S, A, d # D)"
    by (simp add: assms(1) f1 f2 f3')
  then have "filter is_unexpected (diagnostics ?st) = d # D"
    by (simp add: scan_upto_brackets)
  then have "d \<in> set (filter is_unexpected (diagnostics ?st))" by simp
  then have "d \<in> set (diagnostics ?st)" by simp
  then have "d \<in> set (runStaticHeuristics doc)"
    by (simp add: runStaticHeuristics_def Let_def)
  then show ?thesis by (simp only: d_def)
qed

text \<open>
  C10. The bracket accounting of a line is never suppressed. Whatever \<open>inMultiline\<close> and
  \<open>insideActionBlock\<close> are, the stack, the array depth and the unexpected-closing
  diagnostics after a line are those of the bracket steps over the line, and in a
  suppressed line (\<open>skipHeuristics\<close>) these diagnostics are all the line adds: only the
  statement-shape checks are gated. In particular, for a bracket of a line whose text
  before it and after it is balanced: an opening bracket is pushed with its line and
  column, and \<open>[\<close> raises the array depth; a closing bracket pops the top of the stack,
  \<open>]\<close> lowers the array depth, not below zero, and when the stack is empty or its top is
  not the matching opening bracket, the unexpected-closing diagnostic is added at the
  bracket. The array depth is never negative. At the end of the scan an opening bracket
  after which the comment-stripped text is balanced is reported as unclosed, and a
  closing bracket before which it is balanced is reported as unexpected, wherever it
  stands: also in the body of a raw string or in an action block.
\<close>

theorem bracket_accounting_never_suppressed:
  "stack (scan_line lines i st)
     = fst (bracket_chars i 0 (strip_comment (lines ! i)) (stack st, arrayDepth st, []))
   \<and> arrayDepth (scan_line lines i st)
     = fst (snd (bracket_chars i 0 (strip_comment (lines ! i)) (stack st, arrayDepth st, [])))
   \<and> filter is_unexpected (diagnostics (scan_line lines i st))
     = filter is_unexpected (diagnostics st)
       @ snd (snd (bracket_chars i 0 (strip_comment (lines ! i)) (stack st, arrayDepth st, [])))
   \<and> (skipHeuristics st (strip_comment (lines ! i)) \<longrightarrow>
        diagnostics (scan_line lines i st)
          = diagnostics st
            @ snd (snd (bracket_chars i 0 (strip_comment (lines ! i)) (stack st, arrayDepth st, []))))
   \<and> (strip_comment (lines ! i) = pre @ [c] @ post \<and> balanced pre \<and> balanced post
        \<and> 0 \<le> arrayDepth st \<and> is_open c \<longrightarrow>
        stack (scan_line lines i st) = (c, i, length pre) # stack st
        \<and> arrayDepth (scan_line lines i st)
            = (if c = CHR ''['' then arrayDepth st + 1 else arrayDepth st)
        \<and> filter is_unexpected (diagnostics (scan_line lines i st))
            = filter is_unexpected (diagnostics st)
        \<and> (skipHeuristics st (strip_comment (lines ! i)) \<longrightarrow>
             diagnostics (scan_line lines i st) = diagnostics st))
   \<and> (strip_comment (lines ! i) = pre @ [c] @ post \<and> balanced pre \<and> balanced post
        \<and> 0 \<le> arrayDepth st \<and> is_close c \<longrightarrow>
        stack (scan_line lines i st) = tl (stack st)
        \<and> arrayDepth (scan_line lines i st)
            = (if c = CHR '']'' then max 0 (arrayDepth st - 1) else arrayDepth st)
        \<and> filter is_unexpected (diagnostics (scan_line lines i st))
            = filter is_unexpected (diagnostics st)
              @ (if stack st = [] \<or> fst (hd (stack st)) \<noteq> pairs c
                 then [Diagnostic (RangeV i (length pre) i (length pre + 1)) (msg_unexpected c) Error]
                 else [])
        \<and> (skipHeuristics st (strip_comment (lines ! i)) \<longrightarrow>
             diagnostics (scan_line lines i st)
               = diagnostics st
                 @ (if stack st = [] \<or> fst (hd (stack st)) \<noteq> pairs c
                    then [Diagnostic (RangeV i (length pre) i (length pre + 1)) (msg_unexpected c) Error]
                    else [])))
   \<and> 0 \<le> arrayDepth (scan_upto lines n)
   \<and> (doc_chars (split_nl doc) (length (split_nl doc)) = w1 @ [(b, L, C)] @ w2
        \<and> is_open b \<and> balanced (map fst w2) \<longrightarrow>
        Diagnostic (RangeV L C L (C + 1)) (msg_unclosed b) Error \<in> set (runStaticHeuristics doc))
   \<and> (doc_chars (split_nl doc) (length (split_nl doc)) = w1 @ [(b, L, C)] @ w2
        \<and> is_close b \<and> balanced (map fst w1) \<longrightarrow>
        Diagnostic (RangeV L C L (C + 1)) (msg_unexpected b) Error \<in> set (runStaticHeuristics doc))"
proof -
  have 1: "stack (scan_line lines i st)
     = fst (bracket_chars i 0 (strip_comment (lines ! i)) (stack st, arrayDepth st, []))"
    using scan_line_stack [of lines i st] by (simp add: line_brackets_def)
  have 2: "arrayDepth (scan_line lines i st)
     = fst (snd (bracket_chars i 0 (strip_comment (lines ! i)) (stack st, arrayDepth st, [])))"
    using scan_line_arrayDepth [of lines i st] by (simp add: line_brackets_def)
  have 3: "filter is_unexpected (diagnostics (scan_line lines i st))
     = filter is_unexpected (diagnostics st)
       @ snd (snd (bracket_chars i 0 (strip_comment (lines ! i)) (stack st, arrayDepth st, [])))"
    using scan_line_unexpected [of lines i st] by (simp add: line_brackets_def)
  have 4: "skipHeuristics st (strip_comment (lines ! i)) \<longrightarrow>
        diagnostics (scan_line lines i st)
          = diagnostics st
            @ snd (snd (bracket_chars i 0 (strip_comment (lines ! i)) (stack st, arrayDepth st, [])))"
    using scan_line_suppressed [of st lines i] by (simp add: line_brackets_def)
  have 5: "strip_comment (lines ! i) = pre @ [c] @ post \<and> balanced pre \<and> balanced post
        \<and> 0 \<le> arrayDepth st \<and> is_open c \<longrightarrow>
        stack (scan_line lines i st) = (c, i, length pre) # stack st
        \<and> arrayDepth (scan_line lines i st)
            = (if c = CHR ''['' then arrayDepth st + 1 else arrayDepth st)
        \<and> filter is_unexpected (diagnostics (scan_line lines i st))
            = filter is_unexpected (diagnostics st)
        \<and> (skipHeuristics st (strip_comment (lines ! i)) \<longrightarrow>
             diagnostics (scan_line lines i st) = diagnostics st)"
    using open_in_line [of lines i pre c post st] by blast
  have 6: "strip_comment (lines ! i) = pre @ [c] @ post \<and> balanced pre \<and> balanced post
        \<and> 0 \<le> arrayDepth st \<and> is_close c \<longrightarrow>
        stack (scan_line lines i st) = tl (stack st)
        \<and> arrayDepth (scan_line lines i st)
            = (if c = CHR '']'' then max 0 (arrayDepth st - 1) else arrayDepth st)
        \<and> filter is_unexpected (diagnostics (scan_line lines i st))
            = filter is_unexpected (diagnostics st)
              @ (if stack st = [] \<or> fst (hd (stack st)) \<noteq> pairs c
                 then [Diagnostic (RangeV i (length pre) i (length pre + 1)) (msg_unexpected c) Error]
                 else [])
        \<and> (skipHeuristics st (strip_comment (lines ! i)) \<longrightarrow>
             diagnostics (scan_line lines i st)
               = diagnostics st
                 @ (if stack st = [] \<or> fst (hd (stack st)) \<noteq> pairs c
                    then [Diagnostic (RangeV i (length pre) i (length pre + 1)) (msg_unexpected c) Error]
                    else []))"
    using close_in_line [of lines i pre c post st] by blast
  have 7: "0 \<le> arrayDepth (scan_upto lines n)"
    by (rule scan_upto_depth_nonneg)
  have 8: "doc_chars (split_nl doc) (length (split_nl doc)) = w1 @ [(b, L, C)] @ w2
        \<and> is_open b \<and> balanced (map fst w2) \<longrightarrow>
        Diagnostic (RangeV L C L (C + 1)) (msg_unclosed b) Error \<in> set (runStaticHeuristics doc)"
    using open_reported [of doc w1 b L C w2] by blast
  have 9: "doc_chars (split_nl doc) (length (split_nl doc)) = w1 @ [(b, L, C)] @ w2
        \<and> is_close b \<and> balanced (map fst w1) \<longrightarrow>
        Diagnostic (RangeV L C L (C + 1)) (msg_unexpected b) Error \<in> set (runStaticHeuristics doc)"
    using close_reported [of doc w1 b L C w2] by blast
  from 1 2 3 4 5 6 7 8 9 show ?thesis by (intro conjI)
qed

theorem bracket_accounting_never_suppressed_witness:
  "skipHeuristics (scan_upto [''x = '' @ [squote, squote], ''('', [squote, squote] @ '';''] 1)
       (strip_comment ([''x = '' @ [squote, squote], ''('', [squote, squote] @ '';''] ! 1))
   \<and> stack (scan_line [''x = '' @ [squote, squote], ''('', [squote, squote] @ '';''] 1
          (scan_upto [''x = '' @ [squote, squote], ''('', [squote, squote] @ '';''] 1))
       = [(CHR ''('', 1, 0)]
   \<and> Diagnostic (RangeV 1 0 1 (0 + 1)) (msg_unclosed (CHR ''('')) Error
       \<in> set (runStaticHeuristics (''x = '' @ [squote, squote, newline] @ ''('' @ [newline, squote, squote] @ '';''))
   \<and> skipHeuristics (scan_upto [''_action = {'', ''  ]'', ''};''] 1)
       (strip_comment ([''_action = {'', ''  ]'', ''};''] ! 1))
   \<and> diagnostics (scan_line [''_action = {'', ''  ]'', ''};''] 1 (scan_upto [''_action = {'', ''  ]'', ''};''] 1))
       = [Diagnostic (RangeV 1 2 1 3) (msg_unexpected (CHR '']'')) Error]
   \<and> diagnostics (scan_line [''_action = {'', ''  ]'', ''};''] 1 (scan_upto [''_action = {'', ''  ]'', ''};''] 1))
       = diagnostics (scan_upto [''_action = {'', ''  ]'', ''};''] 1)
         @ snd (snd (bracket_chars 1 0 (strip_comment ([''_action = {'', ''  ]'', ''};''] ! 1))
             (stack (scan_upto [''_action = {'', ''  ]'', ''};''] 1),
              arrayDepth (scan_upto [''_action = {'', ''  ]'', ''};''] 1), [])))
   \<and> Diagnostic (RangeV 1 0 1 (0 + 1)) (msg_unexpected (CHR '')'')) Error
       \<in> set (runStaticHeuristics (''x = '' @ [squote, squote, newline] @ '')'' @ [newline, squote, squote] @ '';''))"
proof -
  let ?l1 = "[''x = '' @ [squote, squote], ''('', [squote, squote] @ '';'']"
  let ?s1 = "scan_upto ?l1 1"
  let ?d1 = "''x = '' @ [squote, squote, newline] @ ''('' @ [newline, squote, squote] @ '';''"
  let ?l2 = "[''_action = {'', ''  ]'', ''};'']"
  let ?s2 = "scan_upto ?l2 1"
  let ?d3 = "''x = '' @ [squote, squote, newline] @ '')'' @ [newline, squote, squote] @ '';''"
  let ?u = "positioned 0 0 (''x = '' @ [squote, squote])"
  let ?v = "positioned 2 0 ([squote, squote] @ '';'')"
  have op: "is_open (CHR ''('')" by (simp add: is_open_def)
  have cl: "is_close (CHR '']'')" "is_close (CHR '')'')" by (simp_all add: is_close_def)
  have plain: "balanced ''  ''" "balanced (map fst ?u)" "balanced (map fst ?v)"
    unfolding map_fst_positioned
    by (rule balanced_plain, simp add: is_close_def is_open_def squote_def)+
  have a1: "skipHeuristics ?s1 (strip_comment (?l1 ! 1))" by code_simp
  have a2: "strip_comment (?l1 ! 1) = [] @ [CHR ''(''] @ []" by code_simp
  have a3: "0 \<le> arrayDepth ?s1" by code_simp
  have a4: "stack ?s1 = []" by code_simp
  have a5: "doc_chars (split_nl ?d1) (length (split_nl ?d1)) = ?u @ [(CHR ''('', 1, 0)] @ ?v"
    by code_simp
  note t1 = bracket_accounting_never_suppressed
    [where lines = ?l1 and i = 1 and st = ?s1 and pre = "[]" and c = "CHR ''(''" and post = "[]"
       and doc = ?d1 and ?w1.0 = ?u and b = "CHR ''(''" and L = 1 and C = 0 and ?w2.0 = ?v]
  from t1 a2 bal_empty a3 op
  have "stack (scan_line ?l1 1 ?s1) = (CHR ''('', 1, length ([]::string)) # stack ?s1"
    by blast
  then have r1: "stack (scan_line ?l1 1 ?s1) = [(CHR ''('', 1, 0)]"
    by (simp only: a4 list.size)
  from t1 a5 op plain(3)
  have r2: "Diagnostic (RangeV 1 0 1 (0 + 1)) (msg_unclosed (CHR ''('')) Error
       \<in> set (runStaticHeuristics ?d1)"
    by blast
  have b1: "skipHeuristics ?s2 (strip_comment (?l2 ! 1))" by code_simp
  have b2: "strip_comment (?l2 ! 1) = ''  '' @ [CHR '']''] @ []" by code_simp
  have b3: "0 \<le> arrayDepth ?s2" by code_simp
  note t2 = bracket_accounting_never_suppressed
    [where lines = ?l2 and i = 1 and st = ?s2 and pre = "''  ''" and c = "CHR '']''" and post = "[]"]
  from t2 b2 plain(1) bal_empty b3 cl(1) b1
  have "diagnostics (scan_line ?l2 1 ?s2)
               = diagnostics ?s2
                 @ (if stack ?s2 = [] \<or> fst (hd (stack ?s2)) \<noteq> pairs (CHR '']'')
                    then [Diagnostic (RangeV 1 (length ''  '') 1 (length ''  '' + 1)) (msg_unexpected (CHR '']'')) Error]
                    else [])"
    by blast
  moreover have "diagnostics ?s2
                 @ (if stack ?s2 = [] \<or> fst (hd (stack ?s2)) \<noteq> pairs (CHR '']'')
                    then [Diagnostic (RangeV 1 (length ''  '') 1 (length ''  '' + 1)) (msg_unexpected (CHR '']'')) Error]
                    else [])
        = [Diagnostic (RangeV 1 2 1 3) (msg_unexpected (CHR '']'')) Error]"
    by code_simp
  ultimately have r3: "diagnostics (scan_line ?l2 1 ?s2)
       = [Diagnostic (RangeV 1 2 1 3) (msg_unexpected (CHR '']'')) Error]"
    by (rule trans)
  from t2 b1
  have r5: "diagnostics (scan_line ?l2 1 ?s2)
       = diagnostics ?s2
         @ snd (snd (bracket_chars 1 0 (strip_comment (?l2 ! 1)) (stack ?s2, arrayDepth ?s2, [])))"
    by blast
  have c5: "doc_chars (split_nl ?d3) (length (split_nl ?d3)) = ?u @ [(CHR '')'', 1, 0)] @ ?v"
    by code_simp
  note t3 = bracket_accounting_never_suppressed
    [where doc = ?d3 and ?w1.0 = ?u and b = "CHR '')''" and L = 1 and C = 0 and ?w2.0 = ?v]
  from t3 c5 cl(2) plain(2)
  have r4: "Diagnostic (RangeV 1 0 1 (0 + 1)) (msg_unexpected (CHR '')'')) Error
       \<in> set (runStaticHeuristics ?d3)"
    by blast
  show ?thesis
    by (rule conjI [OF a1 conjI [OF r1 conjI [OF r2 conjI [OF b1 conjI [OF r3 conjI [OF r5 r4]]]]]])
qed

text \<open>
  A bracket in the body of a raw string enters the stack: the \<open>(\<close> of the second line
  is reported as unclosed, and nothing else is reported.
\<close>

lemma raw_string_bracket_example:
  "runStaticHeuristics (''x = '' @ [squote, squote, newline] @ ''('' @ [newline, squote, squote] @ '';'')
     = [Diagnostic (RangeV 1 0 1 1) (msg_unclosed (CHR ''('')) Error]"
  by code_simp

section \<open>Properties of the matcher\<close>

lemma upt_Suc_shift: "[0..<Suc n] = 0 # map Suc [0..<n]"
  by (simp add: upt_conv_Cons map_Suc_upt del: upt_Suc)

text \<open>
  A starred character class matches greedily: its results are the cuts of the input
  inside the longest run of class characters, the longest first.
\<close>

lemma rmatch_star_cls:
  "rmatch (Star (Cls P)) (p, s, c) =
     map (\<lambda>k. (last_of p (take k s), drop k s, c)) (rev [0..<Suc (length (takeWhile P s))])"
proof (induction s arbitrary: p)
  case Nil
  show ?case by (simp add: rmatch.simps(5))
next
  case (Cons x s)
  show ?case
  proof (cases "P x")
    case True
    have "rmatch (Star (Cls P)) (p, x # s, c) = rmatch (Star (Cls P)) (Some x, s, c) @ [(p, x # s, c)]"
      using True by (simp add: rmatch.simps(5))
    also have "\<dots> = map (\<lambda>k. (last_of (Some x) (take k s), drop k s, c))
                       (rev [0..<Suc (length (takeWhile P s))]) @ [(p, x # s, c)]"
      by (simp only: Cons.IH)
    also have "\<dots> = map (\<lambda>k. (last_of p (take k (x # s)), drop k (x # s), c))
                       (rev [0..<Suc (Suc (length (takeWhile P s)))])"
      by (subst upt_Suc_shift [of "Suc (length (takeWhile P s))"]) (simp add: rev_map comp_def del: upt_Suc)
    finally show ?thesis using True by simp
  next
    case False
    then show ?thesis by (simp add: rmatch.simps(5))
  qed
qed

lemma rmatch_lazy_cls:
  "rmatch (Lazy (Cls P)) (p, s, c) =
     map (\<lambda>k. (last_of p (take k s), drop k s, c)) [0..<Suc (length (takeWhile P s))]"
proof (induction s arbitrary: p)
  case Nil
  show ?case by (simp add: rmatch.simps(6))
next
  case (Cons x s)
  show ?case
  proof (cases "P x")
    case True
    have "rmatch (Lazy (Cls P)) (p, x # s, c) = (p, x # s, c) # rmatch (Lazy (Cls P)) (Some x, s, c)"
      using True by (simp add: rmatch.simps(6))
    also have "\<dots> = (p, x # s, c) # map (\<lambda>k. (last_of (Some x) (take k s), drop k s, c))
                       [0..<Suc (length (takeWhile P s))]"
      by (simp only: Cons.IH)
    also have "\<dots> = map (\<lambda>k. (last_of p (take k (x # s)), drop k (x # s), c))
                       [0..<Suc (Suc (length (takeWhile P s)))]"
      by (subst upt_Suc_shift [of "Suc (length (takeWhile P s))"]) (simp add: comp_def del: upt_Suc)
    finally show ?thesis using True by simp
  next
    case False
    then show ?thesis by (simp add: rmatch.simps(6))
  qed
qed

lemma takeWhile_run:
  "\<forall>x\<in>set xs. P x \<Longrightarrow> rest = [] \<or> \<not> P (hd rest) \<Longrightarrow> takeWhile P (xs @ rest) = xs"
  by (cases rest) (simp_all add: takeWhile_append2)

lemma rmatch_star_cls_head:
  assumes "\<forall>x\<in>set xs. P x" and "rest = [] \<or> \<not> P (hd rest)"
  shows "\<exists>ys. rmatch (Star (Cls P)) (p, xs @ rest, c) = (last_of p xs, rest, c) # ys"
  using takeWhile_run [OF assms]
  by (simp add: rmatch_star_cls del: upt_Suc) (simp add: rev_map)

lemma rmatch_plus_cls_head:
  assumes "xs \<noteq> []" and "\<forall>x\<in>set xs. P x" and "rest = [] \<or> \<not> P (hd rest)"
  shows "\<exists>ys. rmatch (Plus (Cls P)) (p, xs @ rest, c) = (last_of p xs, rest, c) # ys"
proof -
  from assms(1) obtain x xs' where xs: "xs = x # xs'" by (cases xs) auto
  with assms(2) have px: "P x" and pxs: "\<forall>x\<in>set xs'. P x" by simp_all
  from rmatch_star_cls_head [OF pxs assms(3), of "Some x" c]
  obtain ys where "rmatch (Star (Cls P)) (Some x, xs' @ rest, c) = (last_of (Some x) xs', rest, c) # ys"
    by blast
  then show ?thesis
    using px by (simp add: Plus_def xs)
qed

lemma rmatch_seq_head:
  "rmatch r1 x = y # ys \<Longrightarrow> rmatch r2 y = z # zs \<Longrightarrow> \<exists>us. rmatch (Seq r1 r2) x = z # us"
  by simp

lemma rmatch_grp_head:
  "rmatch r (p, s, c) = (p', s', c') # ys \<Longrightarrow>
   \<exists>us. rmatch (Grp n r) (p, s, c) = (p', s', (n, take (length s - length s') s) # c') # us"
  by simp

lemma rmatch_lit_seq: "rmatch (Seq (Lit w) r) (p, w @ s, c) = rmatch r (last_of p w, s, c)"
  by simp

lemma rmatch_lit_seq_fail: "\<not> prefix w s \<Longrightarrow> rmatch (Seq (Lit w) r) (p, s, c) = []"
  by simp

section \<open>Properties of scanning\<close>

lemma re_scan_no_match:
  assumes "\<forall>x\<in>set pre. \<forall>p s. rmatch r (p, x # s, []) = []"
  shows "re_scan r 0 p (pre @ s) = map Keep pre @ re_scan r 0 (last_of p pre) s"
  using assms by (induction pre arbitrary: p) simp_all

lemma hits_keep: "hits i (map Keep pre @ ps) = hits (i + length pre) ps"
  by (induction pre arbitrary: i) simp_all

lemma re_first_after_prefix:
  assumes "\<forall>x\<in>set pre. \<forall>p s. rmatch r (p, x # s, []) = []"
    and "rmatch r (last_of None pre, x # s, []) = (p', s', c) # ms"
    and "length s' \<le> length s"
  shows "re_first r (pre @ x # s) = Some (length pre, take (length (x # s) - length s') (x # s), c)"
proof -
  have "take (length (x # s) - length s') (x # s) \<noteq> []"
    using assms(3) by (simp add: Suc_diff_le)
  then have "\<exists>ps. re_scan r 0 (last_of None pre) (x # s)
               = Hit (take (length (x # s) - length s') (x # s)) c # ps"
    using assms(2) by (simp add: Let_def)
  then show ?thesis
    using re_scan_no_match [OF assms(1), of None "x # s"]
    by (auto simp: re_first_def scan_def hits_keep)
qed

section \<open>Diagnostics stay\<close>

lemma scan_line_keeps: "set (diagnostics st) \<subseteq> set (diagnostics (scan_line lines i st))"
proof (cases "trim (strip_comment (lines ! i)) = []")
  case True
  then show ?thesis by (simp add: scan_line_blank)
next
  case False
  show ?thesis by (simp add: scan_line_diagnostics [OF False])
qed

lemma scan_upto_keeps:
  "m \<le> n \<Longrightarrow> set (diagnostics (scan_upto lines m)) \<subseteq> set (diagnostics (scan_upto lines n))"
proof (induction n)
  case 0
  then show ?case by simp
next
  case (Suc n)
  show ?case
  proof (cases "m = Suc n")
    case True
    then show ?thesis by simp
  next
    case False
    with Suc.prems have "m \<le> n" by simp
    from Suc.IH [OF this] scan_line_keeps [of "scan_upto lines n" lines n]
    show ?thesis by auto
  qed
qed

text \<open>A shape diagnostic of an unsuppressed line with content is in the result of the scan.\<close>

lemma shape_check_reported:
  assumes "i < length (split_nl doc)"
    and "trim (strip_comment (split_nl doc ! i)) \<noteq> []"
    and "\<not> skipHeuristics (scan_upto (split_nl doc) i) (strip_comment (split_nl doc ! i))"
    and "d \<in> set (shape_checks (split_nl doc) i (arrayDepth (scan_upto (split_nl doc) (Suc i))))"
  shows "d \<in> set (runStaticHeuristics doc)"
proof -
  let ?lines = "split_nl doc"
  have "d \<in> set (diagnostics (scan_upto ?lines (Suc i)))"
    using assms(3,4) by (simp add: scan_line_diagnostics [OF assms(2)])
  moreover have "Suc i \<le> length ?lines" using assms(1) by simp
  ultimately have "d \<in> set (diagnostics (scan_upto ?lines (length ?lines)))"
    using scan_upto_keeps by blast
  then show ?thesis by (simp add: runStaticHeuristics_def Let_def)
qed

section \<open>The inline check\<close>

lemma last_of_append: "last_of p (xs @ ys) = last_of (last_of p xs) ys"
  by (induction xs arbitrary: p) simp_all

lemma not_ident_brace: "\<not> is_ident (CHR ''}'')" "\<not> is_space (CHR ''}'')"
  by (simp_all add: is_ident_def is_space_def in_range_def is_digit_def)

lemma re_inline_no_match: "x \<noteq> CHR ''}'' \<Longrightarrow> rmatch re_inline (p, x # s, []) = []"
  by (simp add: re_inline_def)

lemma re_inline_match:
  assumes "ws \<noteq> []" and "\<forall>c\<in>set ws. is_space c"
    and "w \<noteq> []" and "\<forall>c\<in>set w. is_ident c"
    and "rest = [] \<or> \<not> is_ident (hd rest)"
  shows "\<exists>p' ms. rmatch re_inline (p, CHR ''}'' # ws @ w @ rest, []) = (p', rest, [(1, w)]) # ms"
proof -
  from assms(3) obtain c0 w' where w: "w = c0 # w'" by (cases w) auto
  have "\<not> is_space (hd (w @ rest))"
    using assms(4) w by (auto simp: is_ident_def is_space_def in_range_def is_digit_def)
  then have "w @ rest = [] \<or> \<not> is_space (hd (w @ rest))" by simp
  from rmatch_plus_cls_head [OF assms(1,2) this, of "Some (CHR ''}'')" "[]"]
  obtain ys where a: "rmatch (Plus (Cls is_space)) (Some (CHR ''}''), ws @ w @ rest, [])
      = (last_of (Some (CHR ''}'')) ws, w @ rest, []) # ys"
    by blast
  from rmatch_plus_cls_head [OF assms(3,4,5), of "last_of (Some (CHR ''}'')) ws" "[]"]
  obtain zs where "rmatch (Plus (Cls is_ident)) (last_of (Some (CHR ''}'')) ws, w @ rest, [])
      = (last_of (last_of (Some (CHR ''}'')) ws) w, rest, []) # zs"
    by blast
  from rmatch_grp_head [OF this, of 1]
  obtain us where b: "rmatch (Grp 1 (Plus (Cls is_ident))) (last_of (Some (CHR ''}'')) ws, w @ rest, [])
      = (last_of (last_of (Some (CHR ''}'')) ws) w, rest, [(1, w)]) # us"
    by auto
  from rmatch_seq_head [OF a b]
  obtain vs where "rmatch (Seq (Plus (Cls is_space)) (Grp 1 (Plus (Cls is_ident))))
      (Some (CHR ''}''), ws @ w @ rest, []) = (last_of (last_of (Some (CHR ''}'')) ws) w, rest, [(1, w)]) # vs"
    by blast
  then show ?thesis
    using rmatch_lit_seq [of "''}''" _ p "ws @ w @ rest" "[]"]
    by (simp add: re_inline_def)
qed

text \<open>
  In a line whose first \<open>}\<close> is followed by white space and an identifier, the expression
  of the inline check matches there and captures the whole identifier.
\<close>

lemma re_inline_first:
  assumes "CHR ''}'' \<notin> set pre"
    and "ws \<noteq> []" and "\<forall>c\<in>set ws. is_space c"
    and "w \<noteq> []" and "\<forall>c\<in>set w. is_ident c"
    and "rest = [] \<or> \<not> is_ident (hd rest)"
  shows "re_first re_inline (pre @ CHR ''}'' # ws @ w @ rest)
           = Some (length pre, CHR ''}'' # ws @ w, [(1, w)])"
proof -
  have no: "\<forall>x\<in>set pre. \<forall>p s. rmatch re_inline (p, x # s, []) = []"
    using assms(1) re_inline_no_match by metis
  from re_inline_match [OF assms(2-6)]
  obtain p' ms where m: "rmatch re_inline (last_of None pre, CHR ''}'' # ws @ w @ rest, [])
      = (p', rest, [(1, w)]) # ms"
    by blast
  have "length rest \<le> length (ws @ w @ rest)" by simp
  from re_first_after_prefix [OF no m this] show ?thesis by simp
qed

lemma find_last_absent: "c \<notin> set s \<Longrightarrow> find_last c s i acc = acc"
  by (induction s arbitrary: i) auto

lemma find_last_some: "c \<in> set s \<Longrightarrow> \<exists>k. find_last c s i acc = Some k"
proof (induction s arbitrary: i acc)
  case Nil
  then show ?case by simp
next
  case (Cons x s)
  show ?case
  proof (cases "c \<in> set s")
    case True
    then show ?thesis using Cons.IH by simp
  next
    case False
    with Cons.prems have "x = c" by simp
    with False show ?thesis by (simp add: find_last_absent)
  qed
qed

lemma find_last_at:
  "c \<notin> set ys \<Longrightarrow> find_last c (xs @ c # ys) i acc = Some (i + length xs)"
  by (induction xs arbitrary: i acc) (simp_all add: find_last_absent)

lemma lastIndexOf_some: "c \<in> set s \<Longrightarrow> \<exists>k. lastIndexOf s c = Some k"
  by (simp add: lastIndexOf_def find_last_some)

lemma lastIndexOf_at: "c \<notin> set ys \<Longrightarrow> lastIndexOf (xs @ c # ys) c = Some (length xs)"
  by (simp add: lastIndexOf_def find_last_at)

lemma trim_not_Nil: "c \<in> set s \<Longrightarrow> \<not> is_space c \<Longrightarrow> trim s \<noteq> []"
  using trim_Nil by blast

text \<open>
  C5 (as amended). In a line that is not suppressed and whose comment-stripped text has
  its first \<open>}\<close> followed by at least one white-space character and then an identifier
  other than \<open>in\<close>, \<open>then\<close>, \<open>else\<close>, the scanner emits the expected-terminator diagnostic
  at the last \<open>}\<close> of the line, which is that \<open>}\<close> when no other follows it.
\<close>

theorem expected_terminator_after_brace:
  assumes "i < length (split_nl doc)"
    and "strip_comment (split_nl doc ! i) = pre @ CHR ''}'' # ws @ w @ rest"
    and "CHR ''}'' \<notin> set pre"
    and "ws \<noteq> []" and "\<forall>c\<in>set ws. is_space c"
    and "w \<noteq> []" and "\<forall>c\<in>set w. is_ident c"
    and "rest = [] \<or> \<not> is_ident (hd rest)"
    and "w \<notin> {''in'', ''then'', ''else''}"
    and "\<not> skipHeuristics (scan_upto (split_nl doc) i) (strip_comment (split_nl doc ! i))"
  shows "\<exists>idx. lastIndexOf (strip_comment (split_nl doc ! i)) (CHR ''}'') = Some idx
           \<and> Diagnostic (RangeV i idx i (idx + 1)) msg_expected_semi Error \<in> set (runStaticHeuristics doc)
           \<and> (CHR ''}'' \<notin> set rest \<longrightarrow> idx = length pre)"
proof -
  let ?cl = "strip_comment (split_nl doc ! i)"
  have mem: "CHR ''}'' \<in> set ?cl" by (simp add: assms(2))
  then obtain idx where idx: "lastIndexOf ?cl (CHR ''}'') = Some idx"
    using lastIndexOf_some by blast
  have tr: "trim ?cl \<noteq> []"
    using trim_not_Nil [OF mem] by (simp add: not_ident_brace)
  have "re_first re_inline ?cl = Some (length pre, CHR ''}'' # ws @ w, [(1, w)])"
    unfolding assms(2) by (rule re_inline_first [OF assms(3-8)])
  then have "inline_check i ?cl = [Diagnostic (RangeV i idx i (idx + 1)) msg_expected_semi Error]"
    using assms(9) idx by (simp add: inline_check_def cap_def at_last_brace_def)
  then have "Diagnostic (RangeV i idx i (idx + 1)) msg_expected_semi Error
               \<in> set (shape_checks (split_nl doc) i (arrayDepth (scan_upto (split_nl doc) (Suc i))))"
    by (simp add: shape_checks_def Let_def)
  from shape_check_reported [OF assms(1) tr assms(10) this]
  have rep: "Diagnostic (RangeV i idx i (idx + 1)) msg_expected_semi Error \<in> set (runStaticHeuristics doc)" .
  have "idx = length pre" if "CHR ''}'' \<notin> set rest"
  proof -
    have "CHR ''}'' \<notin> set (ws @ w @ rest)"
      using that assms(5,7) not_ident_brace by auto
    from lastIndexOf_at [OF this, of pre] idx show ?thesis by (simp add: assms(2))
  qed
  with idx rep show ?thesis by blast
qed

theorem expected_terminator_after_brace_witness:
  "Diagnostic (RangeV 2 0 2 (0 + 1)) msg_expected_semi Error
     \<in> set (runStaticHeuristics ''a = {\<newline>  b = 1;\<newline>} c'')"
proof -
  let ?doc = "''a = {\<newline>  b = 1;\<newline>} c''"
  have h1: "2 < length (split_nl ?doc)" by code_simp
  have h2: "strip_comment (split_nl ?doc ! 2) = [] @ CHR ''}'' # '' '' @ ''c'' @ []" by code_simp
  have h3: "CHR ''}'' \<notin> set []" by simp
  have h4: "'' '' \<noteq> []" "\<forall>c\<in>set '' ''. is_space c" by (simp_all add: is_space_def)
  have h5: "''c'' \<noteq> []" "\<forall>c\<in>set ''c''. is_ident c"
    by (simp_all add: is_ident_def in_range_def)
  have h6: "([]::string) = [] \<or> \<not> is_ident (hd [])" by simp
  have h7: "''c'' \<notin> {''in'', ''then'', ''else''}" by simp
  have h8: "\<not> skipHeuristics (scan_upto (split_nl ?doc) 2) (strip_comment (split_nl ?doc ! 2))"
    by code_simp
  from expected_terminator_after_brace [OF h1 h2 h3 h4 h5 h6 h7 h8]
  obtain idx where a: "Diagnostic (RangeV 2 idx 2 (idx + 1)) msg_expected_semi Error
                         \<in> set (runStaticHeuristics ?doc)"
    and b: "CHR ''}'' \<notin> set ([]::string) \<longrightarrow> idx = length ([]::string)"
    by blast
  from b have "idx = 0" by simp
  with a show ?thesis by (simp only:)
qed

theorem expected_terminator_counterexample:
  "runStaticHeuristics ''{}x'' = [Diagnostic (RangeV 0 0 0 3) msg_missing_assign Error]
   \<and> Diagnostic (RangeV 0 1 0 2) msg_expected_semi Error \<notin> set (runStaticHeuristics ''{}x'')"
  by code_simp

section \<open>The statement checks\<close>

lemma find_sub_char: "find_sub [c] s i \<noteq> None \<longleftrightarrow> c \<in> set s"
  by (induction s arbitrary: i) auto

lemma includes_str_char: "includes_str s [c] \<longleftrightarrow> c \<in> set s"
proof -
  have "includes_str s [c] = (find_sub [c] s 0 \<noteq> None)"
    by (simp only: includes_str_def indexOf_def drop_0 min_0L)
  then show ?thesis by (simp only: find_sub_char)
qed

lemma hits_cls: "hits i (re_scan (Cls P) k p s) \<noteq> [] \<longleftrightarrow> (\<exists>c\<in>set (drop k s). P c)"
proof (induction s arbitrary: i k p)
  case Nil
  show ?case by simp
next
  case (Cons x s)
  show ?case
  proof (cases "0 < k")
    case True
    then obtain k' where "k = Suc k'" by (cases k) auto
    then show ?thesis using Cons.IH [of i k' "Some x"] by simp
  next
    case False
    then show ?thesis using Cons.IH [of "Suc i" 0 "Some x"] by auto
  qed
qed

lemma re_test_hits: "re_test r s \<longleftrightarrow> hits 0 (scan r s) \<noteq> []"
  by (simp add: re_test_def re_first_def split: list.splits)

lemma re_test_cls: "re_test (Cls P) s \<longleftrightarrow> (\<exists>c\<in>set s. P c)"
  using hits_cls [of 0 P 0 None s] by (simp add: re_test_hits scan_def)

lemma trimEnd_prefix: "prefix (trimEnd d) d"
proof -
  have "rev d = takeWhile is_space (rev d) @ dropWhile is_space (rev d)" by simp
  then have "d = rev (dropWhile is_space (rev d)) @ rev (takeWhile is_space (rev d))"
    by (metis rev_append rev_rev_ident)
  then show ?thesis unfolding trimEnd_def by (metis prefixI)
qed

lemma find_sub_after_spaces:
  assumes "t \<noteq> []" and "\<not> is_space (hd t)" and "prefix t d" and "\<forall>c\<in>set ws. is_space c"
  shows "find_sub t (ws @ d) i = Some (i + length ws)"
  using assms(4)
proof (induction ws arbitrary: i)
  case Nil
  from assms(1,3) obtain x d' where "d = x # d'" by (cases d) auto
  with assms(3) show ?case by simp
next
  case (Cons x ws)
  from assms(1) obtain y t' where t: "t = y # t'" by (cases t) auto
  with assms(2) Cons.prems have "y \<noteq> x" by auto
  then have "\<not> prefix t (x # ws @ d)" by (simp add: t)
  then show ?case using Cons by simp
qed

lemma indexOf_trim:
  assumes "trim s \<noteq> []"
  shows "indexOf s (trim s) 0 = Some (length (takeWhile is_space s))"
proof -
  let ?d = "dropWhile is_space s"
  have p: "prefix (trim s) ?d" by (simp add: trim_def trimEnd_prefix)
  then obtain zs where z: "?d = trim s @ zs" by (rule prefixE)
  have dn: "?d \<noteq> []"
  proof
    assume e: "?d = []"
    from p have "prefix (trim s) []" unfolding e .
    then have "trim s = []" by (simp only: prefix_Nil)
    with assms show False by contradiction
  qed
  have "\<not> is_space (hd ?d)" using dn by (rule hd_dropWhile)
  then have "\<not> is_space (hd (trim s @ zs))" by (simp only: z simp_thms)
  then have h: "\<not> is_space (hd (trim s))" by (simp only: hd_append2 [OF assms] simp_thms)
  have sp: "\<forall>c\<in>set (takeWhile is_space s). is_space c"
    by (auto dest: set_takeWhileD)
  have "find_sub (trim s) (takeWhile is_space s @ ?d) 0 = Some (0 + length (takeWhile is_space s))"
    by (rule find_sub_after_spaces [OF assms h p sp])
  then have "find_sub (trim s) s 0 = Some (length (takeWhile is_space s))"
    by (simp only: takeWhile_dropWhile_id add_0)
  then show ?thesis by (simp only: indexOf_def drop_0 min_0L)
qed

section \<open>Matches are parts of the text\<close>

text \<open>What a match leaves is a suffix of the input.\<close>

lemma rmatch_suffix: "y \<in> set (rmatch r x) \<Longrightarrow> suffix (fst (snd y)) (fst (snd x))"
proof (induction r x arbitrary: y rule: rmatch.induct)
  case (1 w p s c)
  then show ?case by (auto simp: suffix_drop split: if_splits)
next
  case (2 P p s c)
  then show ?case by (auto split: list.splits if_splits intro: suffix_ConsI)
next
  case (3 r1 r2 x)
  from "3.prems" obtain z where z: "z \<in> set (rmatch r1 x)" and y: "y \<in> set (rmatch r2 z)"
    by auto
  from "3.IH"(1) [OF z] "3.IH"(2) [OF z y] show ?case
    by (rule suffix_order.trans [rotated])
next
  case (4 r1 r2 x)
  from "4.prems" have "y \<in> set (rmatch r1 x) \<or> y \<in> set (rmatch r2 x)" by simp
  then show ?case using "4.IH"(1) [of y] "4.IH"(2) [of y] by blast
next
  case (5 r p s c)
  have "y \<in> set (concat (map (\<lambda>(p', s', c'). if length s' < length s
              then rmatch (Star r) (p', s', c') else []) (rmatch r (p, s, c))) @ [(p, s, c)])"
    using "5.prems" by (subst (asm) rmatch.simps(5))
  then consider "y = (p, s, c)"
    | p' s' c' where "(p', s', c') \<in> set (rmatch r (p, s, c))" "length s' < length s"
      "y \<in> set (rmatch (Star r) (p', s', c'))"
    by (auto split: if_splits)
  then show ?case
  proof cases
    case 1
    then show ?thesis by simp
  next
    case 2
    from "5.IH"(1) [OF 2(1)] "5.IH"(2) [OF 2(1) refl refl 2(2) 2(3)]
    show ?thesis by (auto intro: suffix_order.trans)
  qed
next
  case (6 r p s c)
  have "y \<in> set ((p, s, c) # concat (map (\<lambda>(p', s', c'). if length s' < length s
              then rmatch (Lazy r) (p', s', c') else []) (rmatch r (p, s, c))))"
    using "6.prems" by (subst (asm) rmatch.simps(6))
  then consider "y = (p, s, c)"
    | p' s' c' where "(p', s', c') \<in> set (rmatch r (p, s, c))" "length s' < length s"
      "y \<in> set (rmatch (Lazy r) (p', s', c'))"
    by (auto split: if_splits)
  then show ?case
  proof cases
    case 1
    then show ?thesis by simp
  next
    case 2
    from "6.IH"(1) [OF 2(1)] "6.IH"(2) [OF 2(1) refl refl 2(2) 2(3)]
    show ?thesis by (auto intro: suffix_order.trans)
  qed
next
  case (7 n r p s c)
  then show ?case by fastforce
next
  case (8 p s c)
  then show ?case by (auto split: if_splits)
next
  case (9 p s c)
  then show ?case by (auto split: option.splits if_splits)
next
  case (10 p s c)
  then show ?case by (auto split: if_splits)
next
  case (11 p s c)
  then show ?case by (auto split: if_splits)
qed

lemma rmatch_rest:
  assumes "(p', s', c') \<in> set (rmatch r (p, s, c))"
  shows "s = take (length s - length s') s @ s'" and "length s' \<le> length s"
proof -
  from rmatch_suffix [OF assms] have "suffix s' s" by simp
  then obtain m where m: "s = m @ s'" by (auto simp: suffix_def)
  then show "s = take (length s - length s') s @ s'" by simp
  from m show "length s' \<le> length s" by simp
qed

text \<open>The pieces of a scan, put together again, are the text.\<close>

lemma flat_re_scan: "flat (re_scan r k p s) = drop k s"
proof (induction s arbitrary: k p)
  case Nil
  show ?case by (simp split: list.splits)
next
  case (Cons x s)
  show ?case
  proof (cases "0 < k")
    case True
    then obtain k' where "k = Suc k'" by (cases k) auto
    then show ?thesis by (simp add: Cons.IH)
  next
    case False
    then have k: "k = 0" by simp
    show ?thesis
    proof (cases "rmatch r (p, x # s, [])")
      case Nil
      then show ?thesis by (simp add: k Cons.IH)
    next
      case (Cons y ms)
      obtain p' s' c where y: "y = (p', s', c)" by (cases y) auto
      let ?n = "length (x # s) - length s'"
      show ?thesis
      proof (cases "take ?n (x # s) = []")
        case True
        then show ?thesis using Cons y by (simp add: k Cons.IH)
      next
        case False
        then obtain n' where n: "?n = Suc n'" by (cases ?n) auto
        have "n' \<le> length s" using n by simp
        then have "length (take ?n (x # s)) - 1 = n'"
          unfolding n by simp
        moreover have "take ?n (x # s) @ drop n' s = x # s"
          unfolding n by simp
        ultimately show ?thesis
          using Cons y False by (simp add: k Cons.IH Let_def)
      qed
    qed
  qed
qed

lemma flat_scan: "flat (scan r s) = s"
  by (simp add: scan_def flat_re_scan)

text \<open>Every match of a scan is what the matcher consumed at some position.\<close>

lemma hit_is_match:
  "Hit m c \<in> set (re_scan r k p s) \<Longrightarrow>
     \<exists>p0 s0 p' s' ms. rmatch r (p0, s0, []) = (p', s', c) # ms \<and> m = take (length s0 - length s') s0"
proof (induction s arbitrary: k p)
  case Nil
  note prem = Nil.prems
  show ?case
  proof (cases "rmatch r (p, [], [])")
    case Nil
    with prem show ?thesis by (cases "k = 0") simp_all
  next
    case (Cons y ms)
    obtain p' s' c' where y: "y = (p', s', c')" by (cases y) auto
    from prem Cons y have "m = []" and "c = c'" by (cases "k = 0"; simp)+
    with Cons y have "rmatch r (p, [], []) = (p', s', c) # ms
        \<and> m = take (length ([]::string) - length s') []"
      by simp
    then show ?thesis by blast
  qed
next
  case (Cons x s)
  note prem = Cons.prems and IH = Cons.IH
  show ?case
  proof (cases "0 < k")
    case True
    with prem IH show ?thesis by simp
  next
    case False
    show ?thesis
    proof (cases "rmatch r (p, x # s, [])")
      case Nil
      with prem IH False show ?thesis by auto
    next
      case (Cons y ms)
      obtain p' s' c' where y: "y = (p', s', c')" by (cases y) auto
      from prem False Cons y
      consider "m = take (length (x # s) - length s') (x # s) \<and> c = c'"
        | k' where "Hit m c \<in> set (re_scan r k' (Some x) s)"
        by (auto simp: Let_def split: if_splits)
      then show ?thesis
      proof cases
        case 1
        with Cons y show ?thesis by blast
      next
        case 2
        with IH show ?thesis by blast
      qed
    qed
  qed
qed

lemma hit_match:
  assumes "Hit m c \<in> set (scan r s)"
  shows "\<exists>p0 p' s' ms. rmatch r (p0, m @ s', []) = (p', s', c) # ms"
proof -
  from hit_is_match [OF assms [unfolded scan_def]]
  obtain p0 s0 p' s' ms where a: "rmatch r (p0, s0, []) = (p', s', c) # ms"
    and m: "m = take (length s0 - length s') s0"
    by blast
  from a have "(p', s', c) \<in> set (rmatch r (p0, s0, []))" by simp
  from rmatch_rest(1) [OF this] m have "s0 = m @ s'" by simp
  with a show ?thesis by auto
qed

lemma hit_part:
  assumes "Hit m c \<in> set (scan r s)"
  shows "\<exists>us vs. s = us @ m @ vs"
proof -
  from assms obtain ps qs where "scan r s = ps @ Hit m c # qs"
    by (auto simp: in_set_conv_decomp)
  then have "flat (scan r s) = flat (ps @ Hit m c # qs)" by simp
  moreover have "flat (as @ bs) = flat as @ flat bs" for as bs
    by (induction as) simp_all
  ultimately show ?thesis by (auto simp: flat_scan)
qed

lemma set_hits: "(\<lambda>h. fst (snd h)) ` set (hits i ps) = {m. \<exists>c. Hit m c \<in> set ps}"
proof (induction ps arbitrary: i)
  case Nil
  show ?case by simp
next
  case (Cons q ps)
  show ?case by (cases q) (auto simp: Cons.IH)
qed

lemma set_spans: "set (spans r s) = {m. \<exists>c. Hit m c \<in> set (scan r s)}"
  by (simp add: spans_def set_hits)

section \<open>Replacing matches by text of the same shape\<close>

lemma flat_append: "flat (as @ bs) = flat as @ flat bs"
  by (induction as) simp_all

lemma rebuild_opt_rel:
  assumes "\<And>m c. Hit m c \<in> set ps \<Longrightarrow> \<exists>r. f m c = Some r \<and> list_all2 R m r"
    and "\<And>x. R x x"
  shows "\<exists>out. rebuild_opt f ps = Some out \<and> list_all2 R (flat ps) out"
  using assms(1)
proof (induction ps)
  case Nil
  show ?case by simp
next
  case (Cons q ps)
  have "\<exists>r. f m c = Some r \<and> list_all2 R m r" if "Hit m c \<in> set ps" for m c
  proof -
    from that have "Hit m c \<in> set (q # ps)" by simp
    then show ?thesis by (rule Cons.prems)
  qed
  from Cons.IH [OF this] obtain out where out: "rebuild_opt f ps = Some out" "list_all2 R (flat ps) out"
    by blast
  show ?case
  proof (cases q)
    case (Keep x)
    with out assms(2) show ?thesis by simp
  next
    case (Hit m c)
    then have "Hit m c \<in> set (q # ps)" by simp
    from Cons.prems [OF this] obtain r where "f m c = Some r" "list_all2 R m r" by blast
    with Hit out show ?thesis by (simp add: list_all2_appendI)
  qed
qed

lemma replace_all_opt_rel:
  assumes "\<And>m c. Hit m c \<in> set (scan r s) \<Longrightarrow> \<exists>t. f m c = Some t \<and> list_all2 R m t"
    and "\<And>x. R x x"
  shows "\<exists>out. replace_all_opt r f s = Some out \<and> list_all2 R s out"
proof -
  from rebuild_opt_rel [of "scan r s" f R, OF assms]
  obtain out where "rebuild_opt f (scan r s) = Some out" "list_all2 R (flat (scan r s)) out"
    by blast
  then show ?thesis by (simp add: replace_all_opt_def flat_scan)
qed

lemma same_or_fill_refl: "same_or_fill x x" "same_or_fill_nl x x"
  by (simp_all add: same_or_fill_def same_or_fill_nl_def)

lemma same_or_fill_trans:
  "same_or_fill a b \<Longrightarrow> same_or_fill b c \<Longrightarrow> same_or_fill a c"
  by (auto simp: same_or_fill_def)

lemma same_or_fill_nl_trans:
  "same_or_fill_nl a b \<Longrightarrow> same_or_fill_nl b c \<Longrightarrow> same_or_fill_nl a c"
  by (auto simp: same_or_fill_nl_def fill5_def newline_def)

lemma list_all2_trans':
  assumes "\<And>a b c. R a b \<Longrightarrow> R b c \<Longrightarrow> R a c"
  shows "list_all2 R xs ys \<Longrightarrow> list_all2 R ys zs \<Longrightarrow> list_all2 R xs zs"
  using assms by (rule list_all2_trans)

text \<open>Text of fill characters is related to any text of its length.\<close>

lemma fill_rel:
  assumes "length t = length m" and "\<forall>b\<in>set t. fill5 b"
  shows "list_all2 same_or_fill m t"
    and "newline \<notin> set m \<Longrightarrow> list_all2 same_or_fill_nl m t"
proof -
  show "list_all2 same_or_fill m t"
    using assms by (auto simp: list_all2_conv_all_nth same_or_fill_def)
  assume "newline \<notin> set m"
  then have "\<forall>i<length m. m ! i \<noteq> newline" by (metis nth_mem)
  moreover have "\<forall>i<length m. fill5 (t ! i)" using assms by simp
  ultimately show "list_all2 same_or_fill_nl m t"
    using assms(1) by (simp add: list_all2_conv_all_nth same_or_fill_nl_def)
qed

lemma replicate_space: "repeat_space (int n) = Some (replicate n (CHR '' ''))"
  by (simp add: repeat_space_def)

section \<open>Lines keep their lengths\<close>

lemma split_nl_not_Nil: "split_nl s \<noteq> []"
  by (induction s) (auto split: list.splits)

lemma split_nl_lengths:
  "list_all2 (\<lambda>a b. (a = newline) = (b = newline)) s t \<Longrightarrow>
     map length (split_nl s) = map length (split_nl t)"
proof (induction rule: list_all2_induct)
  case Nil
  show ?case by simp
next
  case (Cons a s b t)
  obtain l ls where l: "split_nl s = l # ls" using split_nl_not_Nil [of s] by (cases "split_nl s") auto
  obtain l' ls' where l': "split_nl t = l' # ls'" using split_nl_not_Nil [of t] by (cases "split_nl t") auto
  from Cons l l' show ?case by auto
qed

lemma same_or_fill_nl_newline: "same_or_fill_nl a b \<Longrightarrow> (a = newline) = (b = newline)"
  by (auto simp: same_or_fill_nl_def fill5_def newline_def)

lemma same_shape_lines:
  "list_all2 same_or_fill_nl s t \<Longrightarrow> map length (split_nl s) = map length (split_nl t)"
  by (rule split_nl_lengths, erule list_all2_mono, rule same_or_fill_nl_newline)

section \<open>Substrings\<close>

lemma find_sub_none: "find_sub sub s i = None \<Longrightarrow> \<not> prefix sub (drop k s)"
proof (induction s arbitrary: i k)
  case Nil
  then show ?case by (auto split: if_splits)
next
  case (Cons x s)
  then show ?case by (cases k) (auto split: if_splits)
qed

lemma includes_str_part: "s = us @ sub @ vs \<Longrightarrow> includes_str s sub"
proof -
  assume s: "s = us @ sub @ vs"
  have "prefix sub (drop (length us) s)" by (simp add: s)
  then have "find_sub sub s 0 \<noteq> None" using find_sub_none by blast
  then show ?thesis by (simp only: includes_str_def indexOf_def drop_0 min_0L simp_thms)
qed

text \<open>Masking cannot create the two characters \<open>!{\<close>.\<close>

lemma same_or_fill_bang:
  assumes "list_all2 same_or_fill s t" and "t = us @ ''!{'' @ vs"
  shows "includes_str s ''!{''"
proof -
  from assms obtain us' r where s1: "s = us' @ r" and "length us' = length us"
    and r: "list_all2 same_or_fill r (''!{'' @ vs)"
    by (auto simp: list_all2_append2)
  from r obtain a b vs' where "r = a # b # vs'" "same_or_fill a (CHR ''!'')" "same_or_fill b (CHR ''{'')"
    by (auto simp: list_all2_Cons2)
  then have "r = ''!{'' @ vs'" by (simp add: same_or_fill_def fill5_def)
  with s1 have "s = us' @ ''!{'' @ vs'" by simp
  then show ?thesis by (rule includes_str_part)
qed

section \<open>The masking steps of the parser check\<close>

lemma rebuild_opt_total:
  "(\<And>m c. f m c \<noteq> None) \<Longrightarrow> rebuild_opt f ps \<noteq> None"
proof (induction ps)
  case Nil
  show ?case by simp
next
  case (Cons q ps)
  then show ?case by (cases q) (auto split: option.splits)
qed

text \<open>A match of an expression that starts with a literal is at least as long as the literal.\<close>

lemma lit_seq_hit_length:
  assumes "Hit m c \<in> set (scan (Seq (Lit w) r) s)"
  shows "length w \<le> length m"
proof -
  from hit_match [OF assms] obtain p0 p' s' ms
    where a: "rmatch (Seq (Lit w) r) (p0, m @ s', []) = (p', s', c) # ms"
    by blast
  then have pre: "prefix w (m @ s')" by (auto split: if_splits)
  with a have "(p', s', c) \<in> set (rmatch r (last_of p0 w, drop (length w) (m @ s'), []))"
    by (simp split: if_splits)
  from rmatch_rest(2) [OF this] have "length s' \<le> length (m @ s') - length w" by simp
  moreover from pre have "length w \<le> length (m @ s')" by (rule prefix_length_le)
  ultimately show ?thesis by simp
qed

lemma fill_step:
  assumes "\<And>m c. Hit m c \<in> set (scan r s) \<Longrightarrow>
             \<exists>t. f m c = Some t \<and> list_all2 same_or_fill m t
                 \<and> (newline \<notin> set m \<longrightarrow> list_all2 same_or_fill_nl m t)"
  shows "\<exists>out. replace_all_opt r f s = Some out \<and> list_all2 same_or_fill s out
           \<and> ((\<forall>m\<in>set (spans r s). newline \<notin> set m) \<longrightarrow> list_all2 same_or_fill_nl s out)"
proof -
  have "\<exists>t. f m c = Some t \<and> list_all2 same_or_fill m t" if "Hit m c \<in> set (scan r s)" for m c
    using assms [OF that] by blast
  from replace_all_opt_rel [of r s f same_or_fill, OF this same_or_fill_refl(1)]
  obtain out where out: "replace_all_opt r f s = Some out" "list_all2 same_or_fill s out"
    by blast
  have "list_all2 same_or_fill_nl s out" if nl: "\<forall>m\<in>set (spans r s). newline \<notin> set m"
  proof -
    have "\<exists>t. f m c = Some t \<and> list_all2 same_or_fill_nl m t" if h: "Hit m c \<in> set (scan r s)" for m c
    proof -
      from h have "m \<in> set (spans r s)" by (auto simp: set_spans)
      with nl have "newline \<notin> set m" by blast
      with assms [OF h] show ?thesis by blast
    qed
    from replace_all_opt_rel [of r s f same_or_fill_nl, OF this same_or_fill_refl(2)]
    obtain out' where "replace_all_opt r f s = Some out'" "list_all2 same_or_fill_nl s out'"
      by blast
    with out(1) show ?thesis by simp
  qed
  with out show ?thesis by blast
qed

lemma fill5_chars: "fill5 (CHR ''_'')" "fill5 (CHR '' '')" "fill5 (CHR ''='')" "fill5 (CHR ''v'')"
  "fill5 (CHR ''n'')"
  by (simp_all add: fill5_def)

lemma mask_let_rel:
  "\<exists>out. mask_let s = Some out \<and> list_all2 same_or_fill s out
     \<and> ((\<forall>m\<in>set (spans re_let_full s). newline \<notin> set m) \<longrightarrow> list_all2 same_or_fill_nl s out)"
  unfolding mask_let_def
proof (rule fill_step)
  fix m c
  assume "Hit m c \<in> set (scan re_let_full s)"
  then have "length ''_let'' \<le> length m"
    unfolding re_let_full_def seqs.simps by (rule lit_seq_hit_length)
  then have len: "2 \<le> length m" by simp
  let ?t = "''_'' @ replicate (length m - 2) (CHR '' '') @ ''=''"
  have "int (length m) - 2 = int (length m - 2)" using len by simp
  then have "map_option (\<lambda>sp. ''_'' @ sp @ ''='') (repeat_space (int (length m) - 2)) = Some ?t"
    by (simp only: replicate_space option.map)
  moreover have "length ?t = length m" using len by simp
  moreover have "\<forall>b\<in>set ?t. fill5 b" by (auto simp: fill5_def)
  ultimately show "\<exists>t. map_option (\<lambda>sp. ''_'' @ sp @ ''='') (repeat_space (int (length m) - 2)) = Some t
      \<and> list_all2 same_or_fill m t \<and> (newline \<notin> set m \<longrightarrow> list_all2 same_or_fill_nl m t)"
    using fill_rel [of ?t m] by blast
qed

lemma mask_one_rel:
  assumes "Hit m c \<in> set (scan (Seq (Lit [x]) r) s)" and "fill5 b"
  shows "\<exists>t. map_option (\<lambda>sp. [b] @ sp) (repeat_space (int (length m) - 1)) = Some t
      \<and> list_all2 same_or_fill m t \<and> (newline \<notin> set m \<longrightarrow> list_all2 same_or_fill_nl m t)"
proof -
  from lit_seq_hit_length [OF assms(1)] have len: "1 \<le> length m" by simp
  let ?t = "[b] @ replicate (length m - 1) (CHR '' '')"
  have "int (length m) - 1 = int (length m - 1)" using len by simp
  then have "map_option (\<lambda>sp. [b] @ sp) (repeat_space (int (length m) - 1)) = Some ?t"
    by (simp only: replicate_space option.map)
  moreover have "length ?t = length m" using len by simp
  moreover have "\<forall>b\<in>set ?t. fill5 b" using assms(2) by (auto simp: fill5_def)
  ultimately show ?thesis
    using fill_rel [of ?t m] by blast
qed

lemma mask_var_rel:
  "\<exists>out. mask_var s = Some out \<and> list_all2 same_or_fill s out
     \<and> ((\<forall>m\<in>set (spans re_var_dot s). newline \<notin> set m) \<longrightarrow> list_all2 same_or_fill_nl s out)"
  unfolding mask_var_def
proof (rule fill_step)
  fix m c
  assume "Hit m c \<in> set (scan re_var_dot s)"
  then have "Hit m c \<in> set (scan (Seq (Lit [CHR ''$'']) (Plus (Cls is_ident_dot))) s)"
    by (simp add: re_var_dot_def)
  from mask_one_rel [OF this fill5_chars(4)]
  show "\<exists>t. map_option (\<lambda>sp. ''v'' @ sp) (repeat_space (int (length m) - 1)) = Some t
      \<and> list_all2 same_or_fill m t \<and> (newline \<notin> set m \<longrightarrow> list_all2 same_or_fill_nl m t)"
    by simp
qed

lemma mask_node_rel:
  "\<exists>out. mask_node s = Some out \<and> list_all2 same_or_fill s out
     \<and> ((\<forall>m\<in>set (spans re_node s). newline \<notin> set m) \<longrightarrow> list_all2 same_or_fill_nl s out)"
  unfolding mask_node_def
proof (rule fill_step)
  fix m c
  assume "Hit m c \<in> set (scan re_node s)"
  then have "\<exists>r. Hit m c \<in> set (scan (Seq (Lit [CHR ''('']) r) s)"
    unfolding re_node_def seqs.simps by blast
  then obtain r where "Hit m c \<in> set (scan (Seq (Lit [CHR ''('']) r) s)" by blast
  from mask_one_rel [OF this fill5_chars(5)]
  show "\<exists>t. map_option (\<lambda>sp. ''n'' @ sp) (repeat_space (int (length m) - 1)) = Some t
      \<and> list_all2 same_or_fill m t \<and> (newline \<notin> set m \<longrightarrow> list_all2 same_or_fill_nl m t)"
    by simp
qed

text \<open>A match of the shorthand marker is \<open>!\<close>, the captured white space and \<open>{\<close>.\<close>

lemma bang_hit:
  assumes "Hit m c \<in> set (scan re_bang s)"
  shows "m = CHR ''!'' # capture c 1 @ ''{''"
proof -
  from hit_match [OF assms] obtain p0 p' s' ms
    where a: "rmatch re_bang (p0, m @ s', []) = (p', s', c) # ms"
    by blast
  then obtain s1 where s1: "m @ s' = CHR ''!'' # s1"
    by (cases "m @ s'") (auto simp: re_bang_def split: if_splits)
  from a have "(p', s', c) \<in> set (rmatch re_bang (p0, m @ s', []))" by simp
  then have "(p', s', c) \<in> set (concat (map (rmatch (Lit ''{''))
                (rmatch (Grp 1 (Star (Cls is_space))) (Some (CHR ''!''), s1, []))))"
    unfolding s1 by (simp add: re_bang_def)
  then obtain k where k: "k < Suc (length (takeWhile is_space s1))"
    and b: "(p', s', c) \<in> set (rmatch (Lit ''{'')
              (last_of (Some (CHR ''!'')) (take k s1), drop k s1,
               [(Suc 0, take (length s1 - (length s1 - k)) s1)]))"
    by (auto simp: rmatch_star_cls simp del: upt_Suc rmatch.simps(1))
  have "k \<le> length s1" using k length_takeWhile_le [of is_space s1] by simp
  then have tk: "take (length s1 - (length s1 - k)) s1 = take k s1" by simp
  from b have d: "drop k s1 = CHR ''{'' # s'" and c: "c = [(Suc 0, take k s1)]"
    unfolding tk by (cases "drop k s1"; auto split: if_splits)+
  have "s1 = take k s1 @ drop k s1" by simp
  then have "m @ s' = (CHR ''!'' # take k s1 @ ''{'') @ s'"
    using s1 d by simp
  then have "m = CHR ''!'' # take k s1 @ ''{''" by (simp only: append_same_eq)
  then show ?thesis by (simp add: c capture_def cap_def)
qed

lemma bang_callback_total:
  "(let spaces = capture c 1
    in if 0 < length spaces
       then map_option (\<lambda>sp. ''_='' @ sp @ ''{'') (repeat_space (int (length spaces) - 1))
       else Some ''_={'') \<noteq> None"
  by (simp add: Let_def repeat_space_def)

lemma mask_bang_total: "\<exists>out. mask_bang s = Some out"
  using rebuild_opt_total [of _ "scan re_bang s", OF bang_callback_total]
  by (auto simp: mask_bang_def replace_all_opt_def)

lemma mask_bang_rel:
  assumes "''!{'' \<notin> set (spans re_bang s)"
  shows "\<exists>out. mask_bang s = Some out \<and> list_all2 same_or_fill s out
     \<and> ((\<forall>m\<in>set (spans re_bang s). newline \<notin> set m) \<longrightarrow> list_all2 same_or_fill_nl s out)"
  unfolding mask_bang_def
proof (rule fill_step)
  fix m c
  assume h: "Hit m c \<in> set (scan re_bang s)"
  define spc where "spc = capture c 1"
  from bang_hit [OF h] have m: "m = CHR ''!'' # spc @ ''{''" by (simp only: spc_def)
  from h have "m \<in> set (spans re_bang s)" by (auto simp: set_spans)
  with assms m have "spc \<noteq> []" by auto
  then obtain x sp' where sp: "spc = x # sp'" by (cases spc) auto
  let ?t = "CHR ''_'' # CHR ''='' # replicate (length sp') (CHR '' '') @ ''{''"
  have "int (length spc) - 1 = int (length sp')" by (simp add: sp)
  then have "repeat_space (int (length spc) - 1) = Some (replicate (length sp') (CHR '' ''))"
    by (simp only: replicate_space)
  then have "(let spaces = spc
          in if 0 < length spaces
             then map_option (\<lambda>sp. ''_='' @ sp @ ''{'') (repeat_space (int (length spaces) - 1))
             else Some ''_={'') = Some ?t"
    by (simp add: Let_def sp)
  then have cb: "(let spaces = capture c 1
          in if 0 < length spaces
             then map_option (\<lambda>sp. ''_='' @ sp @ ''{'') (repeat_space (int (length spaces) - 1))
             else Some ''_={'') = Some ?t"
    by (simp only: spc_def)
  have f: "\<forall>b\<in>set (replicate (length sp') (CHR '' '')). fill5 b" by (simp add: fill5_def)
  have r1: "list_all2 same_or_fill m ?t"
    unfolding m sp
    using fill_rel(1) [of "replicate (length sp') (CHR '' '')" sp', OF _ f]
    by (simp add: same_or_fill_def fill5_def list_all2_appendI)
  have r2: "list_all2 same_or_fill_nl m ?t" if "newline \<notin> set m"
  proof -
    from that have "x \<noteq> newline" "newline \<notin> set sp'" by (auto simp: m sp)
    then show ?thesis
      unfolding m sp
      using fill_rel(2) [of "replicate (length sp') (CHR '' '')" sp', OF _ f]
      by (simp add: same_or_fill_nl_def fill5_def list_all2_appendI newline_def)
  qed
  from cb r1 r2
  show "\<exists>t. (let spaces = capture c 1
          in if 0 < length spaces
             then map_option (\<lambda>sp. ''_='' @ sp @ ''{'') (repeat_space (int (length spaces) - 1))
             else Some ''_={'') = Some t
      \<and> list_all2 same_or_fill m t \<and> (newline \<notin> set m \<longrightarrow> list_all2 same_or_fill_nl m t)"
    by blast
qed

lemma no_bang_spans:
  assumes "\<not> includes_str s ''!{''" and "list_all2 same_or_fill s t"
  shows "''!{'' \<notin> set (spans re_bang t)"
proof
  assume "''!{'' \<in> set (spans re_bang t)"
  then obtain c where "Hit ''!{'' c \<in> set (scan re_bang t)" by (auto simp: set_spans)
  from hit_part [OF this] obtain us vs where "t = us @ ''!{'' @ vs" by blast
  from same_or_fill_bang [OF assms(2) this] assms(1) show False by contradiction
qed

text \<open>
  C1 (as amended). The masking of the parser check never fails. When the text nowhere
  has \<open>!\<close> directly followed by \<open>{\<close>, the masked text has the length of the text, and
  every character of it is the character of the text at the same offset or one of the
  fill characters; when in addition no masked span contains a line break, every line
  keeps its length.
\<close>

theorem parse_mask_keeps_positions:
  "\<exists>masked. nix_mask doc = Some masked
     \<and> (\<not> includes_str doc ''!{'' \<longrightarrow>
          length masked = length doc \<and> list_all2 same_or_fill doc masked)
     \<and> (\<not> includes_str doc ''!{'' \<and> (\<forall>m\<in>set (masked_spans doc). newline \<notin> set m) \<longrightarrow>
          map length (split_nl masked) = map length (split_nl doc))"
proof -
  from mask_let_rel [of doc] obtain m1 where m1: "mask_let doc = Some m1"
    and r1: "list_all2 same_or_fill doc m1"
    and n1: "(\<forall>m\<in>set (spans re_let_full doc). newline \<notin> set m) \<longrightarrow> list_all2 same_or_fill_nl doc m1"
    by blast
  from mask_var_rel [of m1] obtain m2 where m2: "mask_var m1 = Some m2"
    and r2: "list_all2 same_or_fill m1 m2"
    and n2: "(\<forall>m\<in>set (spans re_var_dot m1). newline \<notin> set m) \<longrightarrow> list_all2 same_or_fill_nl m1 m2"
    by blast
  from mask_node_rel [of m2] obtain m3 where m3: "mask_node m2 = Some m3"
    and r3: "list_all2 same_or_fill m2 m3"
    and n3: "(\<forall>m\<in>set (spans re_node m2). newline \<notin> set m) \<longrightarrow> list_all2 same_or_fill_nl m2 m3"
    by blast
  from mask_bang_total [of m3] obtain m4 where m4: "mask_bang m3 = Some m4" by blast
  have mask: "nix_mask doc = Some m4" by (simp add: nix_mask_def m1 m2 m3 m4)
  have sp: "masked_spans doc = spans re_let_full doc @ spans re_var_dot m1 @ spans re_node m2
              @ spans re_bang m3"
    by (simp add: masked_spans_def m1 m2 m3)
  have r13: "list_all2 same_or_fill doc m3"
    using r1 r2 r3 same_or_fill_trans by (blast intro: list_all2_trans')
  have a: "list_all2 same_or_fill doc m4"
    and b: "(\<forall>m\<in>set (masked_spans doc). newline \<notin> set m) \<longrightarrow> list_all2 same_or_fill_nl doc m4"
    if nb: "\<not> includes_str doc ''!{''"
  proof -
    from mask_bang_rel [OF no_bang_spans [OF nb r13]] m4
    have r4: "list_all2 same_or_fill m3 m4"
      and n4: "(\<forall>m\<in>set (spans re_bang m3). newline \<notin> set m) \<longrightarrow> list_all2 same_or_fill_nl m3 m4"
      by auto
    show "list_all2 same_or_fill doc m4"
      using r13 r4 same_or_fill_trans by (blast intro: list_all2_trans')
    show "(\<forall>m\<in>set (masked_spans doc). newline \<notin> set m) \<longrightarrow> list_all2 same_or_fill_nl doc m4"
    proof
      assume "\<forall>m\<in>set (masked_spans doc). newline \<notin> set m"
      then have "list_all2 same_or_fill_nl doc m1" "list_all2 same_or_fill_nl m1 m2"
        "list_all2 same_or_fill_nl m2 m3" "list_all2 same_or_fill_nl m3 m4"
        using n1 n2 n3 n4 by (simp_all add: sp)
      then show "list_all2 same_or_fill_nl doc m4"
        using same_or_fill_nl_trans by (blast intro: list_all2_trans')
    qed
  qed
  have "length m4 = length doc" if "\<not> includes_str doc ''!{''"
    using a [OF that] by (simp add: list_all2_lengthD)
  moreover have "map length (split_nl m4) = map length (split_nl doc)"
    if "\<not> includes_str doc ''!{''" "\<forall>m\<in>set (masked_spans doc). newline \<notin> set m"
    using b [OF that(1)] that(2) same_shape_lines [of doc m4] by simp
  ultimately show ?thesis using mask a by blast
qed

theorem parse_mask_keeps_positions_witness:
  "\<exists>masked. nix_mask ''_let x : int = 5;\<newline>y = (zmdl $foo);\<newline>! { z }'' = Some masked
     \<and> length masked = length ''_let x : int = 5;\<newline>y = (zmdl $foo);\<newline>! { z }''
     \<and> map length (split_nl masked)
         = map length (split_nl ''_let x : int = 5;\<newline>y = (zmdl $foo);\<newline>! { z }'')"
proof -
  let ?doc = "''_let x : int = 5;\<newline>y = (zmdl $foo);\<newline>! { z }''"
  have h1: "\<not> includes_str ?doc ''!{''" by code_simp
  have h2: "\<forall>m\<in>set (masked_spans ?doc). newline \<notin> set m" by code_simp
  from parse_mask_keeps_positions [of ?doc] h1 h2 show ?thesis by blast
qed

theorem parse_mask_counterexample:
  "nix_mask ''!{'' = Some ''_={'' \<and> length ''_={'' \<noteq> length ''!{''"
  by code_simp

section \<open>The parser check\<close>

lemma nix_mask_total: "\<exists>masked. nix_mask doc = Some masked"
proof -
  from mask_let_rel [of doc] obtain m1 where m1: "mask_let doc = Some m1" by blast
  from mask_var_rel [of m1] obtain m2 where m2: "mask_var m1 = Some m2" by blast
  from mask_node_rel [of m2] obtain m3 where m3: "mask_node m2 = Some m3" by blast
  from mask_bang_total [of m3] obtain m4 where m4: "mask_bang m3 = Some m4" by blast
  show ?thesis by (simp add: nix_mask_def m1 m2 m3 m4)
qed

text \<open>
  C8. When the parser exits with a code other than 0 and its error stream does not match
  the expected error line, the check contributes nothing: masking does not fail, and the
  set published for the document is the set captured at schedule time.
\<close>

theorem unrecognized_error_contributes_nothing:
  assumes "code \<noteq> Some 0" and "re_first re_nix_error stderr = None"
  shows "nix_close doc existingDiagnostics isWrapped code stderr = existingDiagnostics
         \<and> (\<exists>masked. nix_mask doc = Some masked
              \<and> (parser (fst (nix_wrap masked)) = (code, stderr) \<longrightarrow>
                   runNixCompilerChecks parser doc existingDiagnostics = Some existingDiagnostics))"
proof -
  have a: "nix_close doc existingDiagnostics w code stderr = existingDiagnostics" for w
    using assms(2) by (simp add: nix_close_def)
  from nix_mask_total [of doc] obtain masked where m: "nix_mask doc = Some masked" by blast
  have "runNixCompilerChecks parser doc existingDiagnostics = Some existingDiagnostics"
    if "parser (fst (nix_wrap masked)) = (code, stderr)"
    using that a by (cases "nix_wrap masked") (simp add: runNixCompilerChecks_def m)
  with a m show ?thesis by blast
qed

theorem unrecognized_error_contributes_nothing_witness:
  "nix_close ''a = ;'' [Diagnostic (RangeV 0 0 0 1) ''earlier'' Error] True (Some 1)
       ''error: something went wrong''
     = [Diagnostic (RangeV 0 0 0 1) ''earlier'' Error]
   \<and> runNixCompilerChecks (\<lambda>input. (Some 1, ''error: something went wrong'')) ''a = ;''
       [Diagnostic (RangeV 0 0 0 1) ''earlier'' Error]
     = Some [Diagnostic (RangeV 0 0 0 1) ''earlier'' Error]"
proof -
  have h1: "Some (1::int) \<noteq> Some 0" by simp
  have h2: "re_first re_nix_error ''error: something went wrong'' = None" by code_simp
  note t = unrecognized_error_contributes_nothing [OF h1 h2,
      of "''a = ;''" "[Diagnostic (RangeV 0 0 0 1) ''earlier'' Error]" True
         "\<lambda>input. (Some 1, ''error: something went wrong'')"]
  from t obtain masked where
    "(Some (1::int), ''error: something went wrong'') = (Some 1, ''error: something went wrong'') \<longrightarrow>
     runNixCompilerChecks (\<lambda>input. (Some 1, ''error: something went wrong'')) ''a = ;''
       [Diagnostic (RangeV 0 0 0 1) ''earlier'' Error]
     = Some [Diagnostic (RangeV 0 0 0 1) ''earlier'' Error]"
    by blast
  then have "runNixCompilerChecks (\<lambda>input. (Some 1, ''error: something went wrong'')) ''a = ;''
       [Diagnostic (RangeV 0 0 0 1) ''earlier'' Error]
     = Some [Diagnostic (RangeV 0 0 0 1) ''earlier'' Error]"
    by (rule mp) (rule refl)
  with conjunct1 [OF t] show ?thesis by (rule conjI)
qed

section \<open>The orchestrator\<close>

lemma schedule_timers:
  assumes "one_timer rt"
  shows "timers (scheduleDiagnostics doc rt)
           = [(nextTimer rt, fst doc, snd doc, runStaticHeuristics (snd doc) @ runTypeChecks (snd doc))]"
    and "diagnosticTimeout (scheduleDiagnostics doc rt) = Some (nextTimer rt)"
  using assms
  by (auto simp: one_timer_def scheduleDiagnostics_def clearTimeout_def setTimeout_def Let_def
           split: prod.splits option.splits)

lemma one_timer_reachable: "reachable rt \<Longrightarrow> one_timer rt"
proof (induction rule: reachable.induct)
  case start
  show ?case by (simp add: one_timer_def initial_runtime_def)
next
  case (change rt doc)
  from schedule_timers [OF change.IH, of doc] show ?case by (simp add: one_timer_def)
next
  case (fire rt h)
  then show ?case
    by (auto simp: one_timer_def fire_timer_def split: option.splits)
next
  case (exit rt k w code err)
  then show ?case
    by (auto simp: one_timer_def parser_exit_def split: prod.splits)
qed

text \<open>
  C9. In every state the extension can reach, at most one debounce timer is pending, for
  all documents together; a call of the scheduling operation leaves exactly one pending
  timer, its own: a timer that was pending before is cancelled and its check is never run.
\<close>

theorem one_pending_timer:
  assumes "reachable rt"
  shows "length (timers rt) \<le> 1
         \<and> timers (scheduleDiagnostics doc rt)
             = [(nextTimer rt, fst doc, snd doc,
                 runStaticHeuristics (snd doc) @ runTypeChecks (snd doc))]"
proof -
  from one_timer_reachable [OF assms] have o: "one_timer rt" .
  then have "length (timers rt) \<le> 1" by (auto simp: one_timer_def)
  with schedule_timers(1) [OF o] show ?thesis by blast
qed

theorem one_pending_timer_witness:
  "length (timers (scheduleDiagnostics (''file:a'', ''a = 1'') initial_runtime)) \<le> 1
   \<and> timers (scheduleDiagnostics (''file:b'', ''b = 2;'')
               (scheduleDiagnostics (''file:a'', ''a = 1'') initial_runtime))
       = [(nextTimer (scheduleDiagnostics (''file:a'', ''a = 1'') initial_runtime),
           fst (''file:b'', ''b = 2;''), snd (''file:b'', ''b = 2;''),
           runStaticHeuristics (snd (''file:b'', ''b = 2;''))
           @ runTypeChecks (snd (''file:b'', ''b = 2;'')))]"
  by (rule one_pending_timer [OF change [OF start]])

section \<open>The typed-declaration checker\<close>

lemma hits_bol_later: "hits i (re_scan (Seq Bol r) k (Some y) s) = []"
proof (induction s arbitrary: i k y)
  case Nil
  show ?case by simp
next
  case (Cons x s)
  show ?case by (cases "0 < k") (simp_all add: Cons.IH)
qed

text \<open>An expression anchored with \<open>^\<close> is only tried at the start of the text.\<close>

lemma re_test_bol: "re_test (Seq Bol r) s \<longleftrightarrow> rmatch r (None, s, []) \<noteq> []"
proof (cases s)
  case Nil
  then show ?thesis
    by (cases "rmatch r (None, [], [])") (auto simp: re_test_hits scan_def)
next
  case (Cons x s')
  show ?thesis
  proof (cases "rmatch r (None, x # s', [])")
    case Nil
    then show ?thesis by (simp add: Cons re_test_hits scan_def hits_bol_later)
  next
    case (Cons y ms)
    obtain p' t c where y: "y = (p', t, c)" by (cases y) auto
    show ?thesis
      using Cons y by (simp add: \<open>s = x # s'\<close> re_test_hits scan_def Let_def)
  qed
qed



lemma not_digit_minus: "\<not> is_digit (CHR ''-'')"
  by (simp add: is_digit_def in_range_def)






section \<open>Formatting a text without dialect constructs\<close>

lemma no_hits_keep: "hits i ps = [] \<Longrightarrow> ps = map Keep (flat ps)"
proof (induction ps arbitrary: i)
  case Nil
  show ?case by simp
next
  case (Cons q ps)
  then show ?case by (cases q) auto
qed

lemma no_spans_scan: "spans r s = [] \<Longrightarrow> scan r s = map Keep s"
  using no_hits_keep [of 0 "scan r s"] by (simp add: spans_def flat_scan)

lemma rebuild_st_keep: "rebuild_st f (map Keep s) st = (s, st)"
  by (induction s) simp_all

lemma restore_empty: "restore [] t = t"
  by (simp add: restore_def)

lemma format_mask_plain:
  assumes "no_dialect_constructs doc"
  shows "format_mask doc =
           (if re_test re_top_form doc then (doc, False, [])
            else (''{'' @ [newline] @ doc @ [newline] @ ''}'', True, []))"
proof -
  from assms have s: "scan re_let_head doc = map Keep doc" "scan re_var doc = map Keep doc"
    "scan re_node doc = map Keep doc" "scan re_bang_brace doc = map Keep doc"
    by (simp_all add: no_dialect_constructs_def no_spans_scan)
  from assms have h: "hits 0 (scan re_let_head doc) = []"
    by (simp add: no_dialect_constructs_def spans_def)
  show ?thesis
    unfolding format_mask_def Let_def h
    by (simp add: s rebuild_st_keep)
qed

text \<open>
  C2. For a text without dialect constructs, masking for the formatter introduces no
  placeholder and changes the text only by the wrap; restoring with the empty dictionary
  changes nothing; so the edit is the formatter's output, unwrapped when the text was
  wrapped, and with a formatter that returns its input a text that needs no wrap comes
  back unchanged.
\<close>

theorem no_constructs_round_trip:
  assumes "no_dialect_constructs doc"
  shows "snd (snd (format_mask doc)) = []
         \<and> fst (format_mask doc)
             = (if re_test re_top_form doc then doc else ''{'' @ [newline] @ doc @ [newline] @ ''}'')
         \<and> restore (snd (snd (format_mask doc))) out = out
         \<and> (nixfmt (fst (format_mask doc)) = (Some 0, out) \<and> out \<noteq> [] \<longrightarrow>
              provideDocumentFormattingEdits nixfmt doc
                = Some (if re_test re_top_form doc then out else unwrap out))
         \<and> (re_test re_top_form doc \<and> doc \<noteq> [] \<longrightarrow>
              provideDocumentFormattingEdits (\<lambda>t. (Some 0, t)) doc = Some doc)"
  by (simp add: format_mask_plain [OF assms] restore_empty provideDocumentFormattingEdits_def
      format_close_def)

theorem no_constructs_round_trip_witness:
  "no_dialect_constructs ''{ a = 1; }''
   \<and> provideDocumentFormattingEdits (\<lambda>t. (Some 0, t)) ''{ a = 1; }'' = Some ''{ a = 1; }''"
proof -
  have h: "no_dialect_constructs ''{ a = 1; }''" by code_simp
  have t: "re_test re_top_form ''{ a = 1; }'' \<and> ''{ a = 1; }'' \<noteq> []" by code_simp
  from no_constructs_round_trip [OF h, of "[]" "\<lambda>t. (Some 0, t)"]
  have "re_test re_top_form ''{ a = 1; }'' \<and> ''{ a = 1; }'' \<noteq> [] \<longrightarrow>
          provideDocumentFormattingEdits (\<lambda>t. (Some 0, t)) ''{ a = 1; }'' = Some ''{ a = 1; }''"
    by blast
  with t have "provideDocumentFormattingEdits (\<lambda>t. (Some 0, t)) ''{ a = 1; }'' = Some ''{ a = 1; }''"
    by (rule rev_mp)
  with h show ?thesis by (rule conjI)
qed

section \<open>The exemption of keyword lines\<close>

lemma is_word_letters:
  "is_word (CHR ''t'')" "is_word (CHR ''n'')" "is_word (CHR ''h'')" "is_word (CHR ''f'')"
  "is_word (CHR ''e'')"
  by (simp_all add: is_word_def in_range_def)

text \<open>The keyword expression accepts a line that starts with one of the keywords as a whole word.\<close>

lemma re_keyword_accepts: "re_test re_keyword t \<longleftrightarrow> starts_with_keyword t"
  by (simp add: re_keyword_def re_test_bol starts_with_keyword_def exempt_keywords_def is_word_letters)

text \<open>
  C6 (as amended). For a line that is not suppressed, at array depth zero after its
  brackets, and not exempt (it does not start with one of the keywords \<open>let\<close>, \<open>in\<close>,
  \<open>with\<close>, \<open>inherit\<close>, \<open>if\<close>, \<open>then\<close>, \<open>else\<close>, \<open>_let\<close> as a whole word or with \<open>}\<close>), that
  contains \<open>=\<close> and an identifier character (a letter, a digit, \<open>_\<close> or \<open>-\<close>) and does
  not end in an accepted terminator, the scanner emits the missing-terminator
  diagnostic over the trimmed text of the line. For the one-line document \<open>foo = 1\<close>
  this is the only diagnostic, over columns 0 to 7. A line without an identifier
  character, such as \<open>"" = ""\<close>, gets no diagnostic.
\<close>

theorem missing_terminator:
  assumes "i < length (split_nl doc)"
    and "\<not> skipHeuristics (scan_upto (split_nl doc) i) (strip_comment (split_nl doc ! i))"
    and "arrayDepth (scan_upto (split_nl doc) (Suc i)) = 0"
    and "CHR ''='' \<in> set (strip_comment (split_nl doc ! i))"
    and "\<exists>c\<in>set (trim (strip_comment (split_nl doc ! i))). is_ident c"
    and "\<not> starts_with_keyword (trim (strip_comment (split_nl doc ! i)))"
    and "\<not> startsWith (trim (strip_comment (split_nl doc ! i))) ''}''"
    and "\<forall>e\<in>set validEndings. \<not> endsWith (trim (strip_comment (split_nl doc ! i))) e"
  shows "Diagnostic (RangeV i (length (takeWhile is_space (strip_comment (split_nl doc ! i)))) i
             (length (takeWhile is_space (strip_comment (split_nl doc ! i)))
              + length (trim (strip_comment (split_nl doc ! i)))))
           msg_missing_semi Error \<in> set (runStaticHeuristics doc)
         \<and> runStaticHeuristics ''foo = 1'' = [Diagnostic (RangeV 0 0 0 7) msg_missing_semi Error]"
proof -
  let ?cl = "strip_comment (split_nl doc ! i)"
  let ?t = "trim ?cl"
  let ?a = "length (takeWhile is_space ?cl)"
  let ?d = "Diagnostic (RangeV i ?a i (?a + length ?t)) msg_missing_semi Error"
  from assms(5) have tr: "?t \<noteq> []" by auto
  have "?d \<in> set (statement_checks i ?cl ?t ?a (?a + length ?t))"
    using assms(4-8)
    by (simp add: statement_checks_def includes_str_char re_test_cls re_ident_char_def list_ex_iff
        re_keyword_accepts)
  then have "?d \<in> set (shape_checks (split_nl doc) i (arrayDepth (scan_upto (split_nl doc) (Suc i))))"
    unfolding shape_checks_def Let_def indexOf_trim [OF tr] assms(3) by simp
  from shape_check_reported [OF assms(1) tr assms(2) this]
  have "?d \<in> set (runStaticHeuristics doc)" .
  moreover have "runStaticHeuristics ''foo = 1'' = [Diagnostic (RangeV 0 0 0 7) msg_missing_semi Error]"
    by code_simp
  ultimately show ?thesis by (rule conjI)
qed

theorem missing_terminator_witness:
  "Diagnostic (RangeV 0 (length (takeWhile is_space (strip_comment (split_nl ''foo = 1'' ! 0)))) 0
       (length (takeWhile is_space (strip_comment (split_nl ''foo = 1'' ! 0)))
        + length (trim (strip_comment (split_nl ''foo = 1'' ! 0)))))
     msg_missing_semi Error \<in> set (runStaticHeuristics ''foo = 1'')
   \<and> runStaticHeuristics ''foo = 1'' = [Diagnostic (RangeV 0 0 0 7) msg_missing_semi Error]"
proof -
  let ?doc = "''foo = 1''"
  have h1: "0 < length (split_nl ?doc)" by code_simp
  have h2: "\<not> skipHeuristics (scan_upto (split_nl ?doc) 0) (strip_comment (split_nl ?doc ! 0))"
    by code_simp
  have h3: "arrayDepth (scan_upto (split_nl ?doc) (Suc 0)) = 0" by code_simp
  have h4: "CHR ''='' \<in> set (strip_comment (split_nl ?doc ! 0))" by code_simp
  have h5: "\<exists>c\<in>set (trim (strip_comment (split_nl ?doc ! 0))). is_ident c" by code_simp
  have h6: "\<not> starts_with_keyword (trim (strip_comment (split_nl ?doc ! 0)))" by code_simp
  have h7: "\<not> startsWith (trim (strip_comment (split_nl ?doc ! 0))) ''}''" by code_simp
  have h8: "\<forall>e\<in>set validEndings. \<not> endsWith (trim (strip_comment (split_nl ?doc ! 0))) e"
    by code_simp
  show ?thesis by (rule missing_terminator [OF h1 h2 h3 h4 h5 h6 h7 h8])
qed

theorem missing_terminator_counterexample:
  "\<not> skipHeuristics init_state (strip_comment ([dquote, dquote] @ '' = '' @ [dquote, dquote]))
   \<and> arrayDepth (scan_upto (split_nl ([dquote, dquote] @ '' = '' @ [dquote, dquote])) (Suc 0)) = 0
   \<and> CHR ''='' \<in> set (strip_comment ([dquote, dquote] @ '' = '' @ [dquote, dquote]))
   \<and> \<not> starts_with_keyword (trim (strip_comment ([dquote, dquote] @ '' = '' @ [dquote, dquote])))
   \<and> \<not> startsWith (trim (strip_comment ([dquote, dquote] @ '' = '' @ [dquote, dquote]))) ''}''
   \<and> \<not> list_ex (endsWith (trim (strip_comment ([dquote, dquote] @ '' = '' @ [dquote, dquote])))) validEndings
   \<and> runStaticHeuristics ([dquote, dquote] @ '' = '' @ [dquote, dquote]) = []"
  by code_simp

end
